theory Spec2Isabelle
  imports Complex_Main "HOL-Library.Monad_Syntax"
begin

section \<open>Karaoke player: the model\<close>

text \<open>
  The development follows the player component of the front end
  (\<^verbatim>\<open>KaraokePlayer\<close>).  A JavaScript number that holds a time stamp is a finite
  double, hence a rational; the comparisons of the source are the comparisons of
  \<^typ>\<open>rat\<close>.  Sums and differences are taken exactly: the rounding of IEEE
  arithmetic is outside this model.
\<close>

subsection \<open>Data\<close>

text \<open>One element of \<^verbatim>\<open>karaokeData.lyrics\<close>: an object with the fields
  \<^verbatim>\<open>text\<close>, \<^verbatim>\<open>start\<close> and \<^verbatim>\<open>end\<close>.\<close>

record word =
  w_text :: string
  w_start :: rat
  w_end :: rat

text \<open>The object \<^verbatim>\<open>{ ...word, index }\<close> that \<^verbatim>\<open>groupWordsIntoLines\<close> puts into a line.\<close>

record lineWord = word +
  w_index :: nat

text \<open>The response of \<^verbatim>\<open>GET /karaoke/:id\<close>.  \<^verbatim>\<open>karaokeData?.lyrics\<close> is falsy when
  there is no data or no \<^verbatim>\<open>lyrics\<close> field; an array, even an empty one, is truthy.\<close>

record karaoke =
  lyrics :: "word list option"
  audio_url :: string

definition lyricsOf :: "karaoke option \<Rightarrow> word list option" where
  "lyricsOf kd = (case kd of None \<Rightarrow> None | Some k \<Rightarrow> lyrics k)"

text \<open>Reading an array element: \<^verbatim>\<open>xs[i]\<close> is \<^verbatim>\<open>undefined\<close> out of range.\<close>

definition elemAt :: "'a list \<Rightarrow> nat \<Rightarrow> 'a option" where
  "elemAt xs i = (if i < length xs then Some (xs ! i) else None)"

subsection \<open>The scan of \<^verbatim>\<open>updateProgress\<close>\<close>

text \<open>
  The \<^verbatim>\<open>for\<close> loop of \<^verbatim>\<open>updateProgress\<close>, started at index \<open>i\<close>.  The value is
  the final \<^verbatim>\<open>foundIndex\<close>: \<open>- 1\<close> when the loop runs to the end without a
  \<^verbatim>\<open>break\<close>.
\<close>

function scanFrom :: "word list \<Rightarrow> rat \<Rightarrow> nat \<Rightarrow> int" where
  "scanFrom ws syncedTime i =
     (if i < length ws then
        (let currentWord = ws ! i;
             nextWord = elemAt ws (i + 1)
         in if syncedTime \<ge> w_start currentWord then
              (case nextWord of
                 Some nw \<Rightarrow>
                   if syncedTime < w_start nw then int i
                   else scanFrom ws syncedTime (i + 1)
               | None \<Rightarrow> int i)
            else scanFrom ws syncedTime (i + 1))
      else - 1)"
  by pat_completeness auto
termination
  by (relation "measure (\<lambda>(ws, syncedTime, i). length ws - i)") auto

declare scanFrom.simps [simp del]

definition foundIndex :: "word list \<Rightarrow> rat \<Rightarrow> int" where
  "foundIndex ws syncedTime = scanFrom ws syncedTime 0"

text \<open>The condition under which the loop body stops at index \<open>i\<close>: the word has started
  and the next one, if there is one, has not.\<close>

definition isActive :: "word list \<Rightarrow> rat \<Rightarrow> nat \<Rightarrow> bool" where
  "isActive ws syncedTime i =
     (i < length ws \<and> syncedTime \<ge> w_start (ws ! i) \<and>
      (i + 1 = length ws \<or> syncedTime < w_start (ws ! (i + 1))))"

subsection \<open>Component state, timers and the audio element\<close>

record audioElement =
  a_currentTime :: rat
  a_paused :: bool

datatype callback = UpdateProgress | PollStatus | PollingTimeout

record timer =
  t_callback :: callback
  t_delay :: nat
  t_repeat :: bool

text \<open>
  The state of one mounted player: the \<^verbatim>\<open>useState\<close> cells, the refs, the timers
  that are armed, and what the component has sent.  \<open>processing\<close> is the parent's
  \<^verbatim>\<open>isProcessing\<close> cell, which the component writes through \<^verbatim>\<open>setIsProcessing\<close>.
\<close>

record player =
  karaokeData :: "karaoke option"
  error :: "string option"
  isPlaying :: bool
  currentTime :: rat
  duration :: rat
  currentWordIndex :: int
  syncOffset :: rat
  autoScrollEnabled :: bool
  audioRef :: "audioElement option"
  intervalRef :: "nat option"
  timers :: "(nat \<times> timer) list"
  nextTimer :: nat
  processing :: bool
  statusRequests :: nat

definition setInterval :: "callback \<Rightarrow> nat \<Rightarrow> player \<Rightarrow> nat \<times> player" where
  "setInterval cb ms s =
     (nextTimer s,
      s\<lparr>timers := timers s @ [(nextTimer s, \<lparr>t_callback = cb, t_delay = ms, t_repeat = True\<rparr>)],
        nextTimer := Suc (nextTimer s)\<rparr>)"

definition setTimeout :: "callback \<Rightarrow> nat \<Rightarrow> player \<Rightarrow> nat \<times> player" where
  "setTimeout cb ms s =
     (nextTimer s,
      s\<lparr>timers := timers s @ [(nextTimer s, \<lparr>t_callback = cb, t_delay = ms, t_repeat = False\<rparr>)],
        nextTimer := Suc (nextTimer s)\<rparr>)"

definition clearInterval :: "nat \<Rightarrow> player \<Rightarrow> player" where
  "clearInterval h s = s\<lparr>timers := filter (\<lambda>e. fst e \<noteq> h) (timers s)\<rparr>"

definition armed :: "nat \<Rightarrow> player \<Rightarrow> bool" where
  "armed h s = (h \<in> set (map fst (timers s)))"

subsection \<open>\<^verbatim>\<open>updateProgress\<close> and \<^verbatim>\<open>handleLyricClick\<close>\<close>

definition updateProgress :: "player \<Rightarrow> player" where
  "updateProgress s =
     (case audioRef s of
        None \<Rightarrow> s
      | Some au \<Rightarrow>
          (case lyricsOf (karaokeData s) of
             None \<Rightarrow> s
           | Some ly \<Rightarrow>
               (let actualTime = a_currentTime au;
                    s1 = s\<lparr>currentTime := actualTime\<rparr>;
                    syncedTime = actualTime + syncOffset s;
                    found = foundIndex ly syncedTime
                in if found \<noteq> - 1 \<and> found \<noteq> currentWordIndex s
                   then s1\<lparr>currentWordIndex := found\<rparr>
                   else s1)))"

text \<open>The audio clock is not the component's: between two ticks the element's
  \<^verbatim>\<open>currentTime\<close> moves, forwards while playing or anywhere after a seek.\<close>

definition audioClock :: "rat \<Rightarrow> player \<Rightarrow> player" where
  "audioClock t s =
     (case audioRef s of None \<Rightarrow> s | Some au \<Rightarrow> s\<lparr>audioRef := Some (au\<lparr>a_currentTime := t\<rparr>)\<rparr>)"

text \<open>A run of progress ticks, each one reading the audio clock at the given time.\<close>

fun runTicks :: "rat list \<Rightarrow> player \<Rightarrow> player" where
  "runTicks [] s = s"
| "runTicks (t # ts) s = runTicks ts (updateProgress (audioClock t s))"

text \<open>\<^verbatim>\<open>audioRef.current.play()\<close>.\<close>

definition audioPlay :: "player \<Rightarrow> player" where
  "audioPlay s =
     (case audioRef s of None \<Rightarrow> s | Some au \<Rightarrow> s\<lparr>audioRef := Some (au\<lparr>a_paused := False\<rparr>)\<rparr>)"

definition handleLyricClick :: "'a word_scheme \<Rightarrow> nat \<Rightarrow> player \<Rightarrow> player" where
  "handleLyricClick word index s =
     (case audioRef s of
        None \<Rightarrow> s
      | Some au \<Rightarrow>
          (let targetTime = w_start word - syncOffset s;
               s1 = s\<lparr>audioRef := Some (au\<lparr>a_currentTime := targetTime\<rparr>)\<rparr>;
               s2 = s1\<lparr>currentTime := targetTime\<rparr>;
               s3 = s2\<lparr>currentWordIndex := int index\<rparr>;
               s4 = s3\<lparr>autoScrollEnabled := True\<rparr>
           in if \<not> isPlaying s then
                (case setInterval UpdateProgress 100 (audioPlay s4) of
                   (h, s5) \<Rightarrow> s5\<lparr>intervalRef := Some h, isPlaying := True\<rparr>)
              else s4))"

text \<open>The \<^verbatim>\<open>onClick\<close> of a rendered word: \<^verbatim>\<open>handleLyricClick(word, word.index)\<close>.\<close>

definition onClickWord :: "lineWord \<Rightarrow> player \<Rightarrow> player" where
  "onClickWord word s = handleLyricClick word (w_index word) s"

subsection \<open>\<^verbatim>\<open>groupWordsIntoLines\<close>\<close>

text \<open>\<^verbatim>\<open>/[.!?,;:]$/.test(text)\<close>: without the multiline flag \<^verbatim>\<open>$\<close> is the end of the
  input, so the test is on the last character.\<close>

definition endsWithPunctuation :: "string \<Rightarrow> bool" where
  "endsWithPunctuation s = (s \<noteq> [] \<and> last s \<in> set ''.!?,;:'')"

definition spread :: "word \<Rightarrow> nat \<Rightarrow> lineWord" where
  "spread word index =
     \<lparr>w_text = w_text word, w_start = w_start word, w_end = w_end word, w_index = index\<rparr>"

text \<open>The callback of \<^verbatim>\<open>forEach\<close>, on the pair of locals \<^verbatim>\<open>lines\<close> and
  \<^verbatim>\<open>currentLine\<close>.\<close>

definition forEachBody ::
  "word list \<Rightarrow> word \<times> nat \<Rightarrow> lineWord list list \<times> lineWord list
     \<Rightarrow> lineWord list list \<times> lineWord list" where
  "forEachBody lyr wi st =
     (case wi of (word, index) \<Rightarrow>
      case st of (lines, currentLine) \<Rightarrow>
        (let currentLine1 = currentLine @ [spread word index];
             nextWord = elemAt lyr (index + 1);
             endsWithPunct = endsWithPunctuation (w_text word);
             largeGap = (case nextWord of None \<Rightarrow> False
                         | Some nw \<Rightarrow> w_start nw - w_end word > 0.8);
             lineTooLong = (length currentLine1 \<ge> 12)
         in if endsWithPunct \<or> largeGap \<or> lineTooLong \<or> nextWord = None
            then (lines @ [currentLine1], [])
            else (lines, currentLine1)))"

definition groupWordsIntoLines :: "karaoke option \<Rightarrow> lineWord list list" where
  "groupWordsIntoLines kd =
     (case lyricsOf kd of
        None \<Rightarrow> []
      | Some lyr \<Rightarrow> fst (fold (forEachBody lyr) (zip lyr [0..<length lyr]) ([], [])))"

text \<open>The player's data for a given word sequence.\<close>

definition loaded :: "word list \<Rightarrow> karaoke option" where
  "loaded lyr = Some \<lparr>lyrics = Some lyr, audio_url = ''''\<rparr>"



text \<open>The two locals after the callback has run on the first \<open>k\<close> words.\<close>

definition loopState :: "word list \<Rightarrow> nat \<Rightarrow> lineWord list list \<times> lineWord list" where
  "loopState lyr k = fold (forEachBody lyr) (take k (zip lyr [0..<length lyr])) ([], [])"

text \<open>The test that ends the callback, for the word at index \<open>k\<close> when
  \<^verbatim>\<open>currentLine\<close> held \<open>m\<close> words before the push.\<close>

definition closeCond :: "word list \<Rightarrow> nat \<Rightarrow> nat \<Rightarrow> bool" where
  "closeCond lyr k m \<longleftrightarrow>
     endsWithPunctuation (w_text (lyr ! k))
     \<or> (k + 1 < length lyr \<and> w_start (lyr ! (k + 1)) - w_end (lyr ! k) > 0.8)
     \<or> 12 \<le> m + 1
     \<or> k + 1 = length lyr"

subsection \<open>\<^verbatim>\<open>processSong\<close>: cache, start, polling and the timeout\<close>

text \<open>The body of a status response, and the outcome of a request: resolved with its
  data, or rejected with \<^verbatim>\<open>err.response?.status\<close> and
  \<^verbatim>\<open>err.response?.data?.detail\<close>.\<close>

record statusData =
  st_status :: string
  st_error :: "string option"
  st_message :: "string option"

datatype 'a response = Resolved 'a | Rejected "nat option" "string option"

text \<open>The left operand of \<^verbatim>\<open>||\<close>: a missing value and the empty string are falsy.\<close>

definition truthy :: "string option \<Rightarrow> string option" where
  "truthy v = (case v of None \<Rightarrow> None | Some x \<Rightarrow> if x = [] then None else Some x)"

definition errorMsg :: "statusData \<Rightarrow> string" where
  "errorMsg d =
     (case truthy (st_error d) of
        Some e \<Rightarrow> e
      | None \<Rightarrow> (case truthy (st_message d) of Some m \<Rightarrow> m | None \<Rightarrow> ''Processing failed''))"

text \<open>\<^verbatim>\<open>String.prototype.includes\<close>.\<close>

fun startsWith :: "string \<Rightarrow> string \<Rightarrow> bool" where
  "startsWith s [] = True"
| "startsWith [] (p # ps) = False"
| "startsWith (c # cs) (p # ps) = (c = p \<and> startsWith cs ps)"

fun includesStr :: "string \<Rightarrow> string \<Rightarrow> bool" where
  "includesStr [] p = (p = [])"
| "includesStr (c # cs) p = (startsWith (c # cs) p \<or> includesStr cs p)"

text \<open>The cross mark U+274C that opens the three explanations, in UTF-8.\<close>

definition crossMark :: string where
  "crossMark = [CHR 0xE2, CHR 0x9D, CHR 0x8C]"

definition downloadUnavailable :: string where
  "downloadUnavailable = crossMark @
     '' This video cannot be downloaded. It may be restricted, age-gated, or unavailable in your region. Please try a different song.''"

definition conversionFailed :: string where
  "conversionFailed = crossMark @
     '' Failed to convert audio format. This video may be incompatible. Please try a different song.''"

definition separationFailed :: string where
  "separationFailed = crossMark @
     '' Failed to separate vocals and instrumental. Please try a different song.''"

definition userFriendlyError :: "string \<Rightarrow> string" where
  "userFriendlyError msg =
     (if includesStr msg ''Downloaded file not found'' \<or> includesStr msg ''downloaded file is empty''
      then downloadUnavailable
      else if includesStr msg ''Failed to convert'' then conversionFailed
      else if includesStr msg ''Separation'' \<or> includesStr msg ''Demucs'' then separationFailed
      else msg)"

text \<open>One firing of the polling interval: the request, its response, and for
  \<^verbatim>\<open>ready\<close> the second request for the data.  A rejected request is logged and
  nothing else.\<close>

definition pollStatus :: "nat \<Rightarrow> statusData response \<Rightarrow> karaoke response \<Rightarrow> player \<Rightarrow> player" where
  "pollStatus pollInterval statusResponse karaokeResponse s =
     (let s0 = s\<lparr>statusRequests := Suc (statusRequests s)\<rparr>
      in case statusResponse of
           Rejected st detail \<Rightarrow> s0
         | Resolved d \<Rightarrow>
             if st_status d = ''ready'' then
               (let s1 = clearInterval pollInterval s0
                in case karaokeResponse of
                     Rejected st detail \<Rightarrow> s1
                   | Resolved k \<Rightarrow> s1\<lparr>karaokeData := Some k, processing := False\<rparr>)
             else if st_status d = ''failed'' \<or> st_status d = ''error'' then
               (clearInterval pollInterval s0)
                 \<lparr>error := Some (userFriendlyError (errorMsg d)), processing := False\<rparr>
             else s0)"

text \<open>The callback of \<^verbatim>\<open>setTimeout(..., 300000)\<close>.  \<open>isProcessing\<close> is the prop the
  enclosing call of \<^verbatim>\<open>processSong\<close> was rendered with: a constant of the closure.\<close>

definition pollingTimeout :: "bool \<Rightarrow> nat \<Rightarrow> player \<Rightarrow> player" where
  "pollingTimeout isProcessing pollInterval s =
     (let s1 = clearInterval pollInterval s
      in if isProcessing
         then s1\<lparr>error := Some ''Processing timeout. Please try again.'', processing := False\<rparr>
         else s1)"

text \<open>\<^verbatim>\<open>processSong\<close> up to the point where both timers are armed.  The result holds
  the handles of the polling interval and of the timeout when polling has started.\<close>

definition processSong ::
  "bool \<Rightarrow> karaoke response \<Rightarrow> unit response \<Rightarrow> player \<Rightarrow> player \<times> (nat \<times> nat) option" where
  "processSong isProcessing cachedResponse processResponse s =
     (let s0 = s\<lparr>error := None\<rparr>
      in case cachedResponse of
           Resolved k \<Rightarrow> (s0\<lparr>karaokeData := Some k, processing := False\<rparr>, None)
         | Rejected st detail \<Rightarrow>
             if st = Some 404 then
               (case processResponse of
                  Resolved u \<Rightarrow>
                    (case setInterval PollStatus 2000 s0 of
                       (p, s1) \<Rightarrow>
                         (case setTimeout PollingTimeout 300000 s1 of
                            (q, s2) \<Rightarrow> (s2, Some (p, q))))
                | Rejected st2 detail2 \<Rightarrow>
                    (s0\<lparr>error := Some (case truthy detail2 of Some x \<Rightarrow> x
                                         | None \<Rightarrow> ''Failed to start processing''),
                        processing := False\<rparr>, None))
             else
               (s0\<lparr>error := Some (case truthy detail of Some x \<Rightarrow> x
                                    | None \<Rightarrow> ''Failed to load karaoke data''),
                   processing := False\<rparr>, None))"

text \<open>What happens after the timers are armed.  An interval that has been cleared does
  not fire; the timeout fires once.\<close>

datatype event = IntervalFires "statusData response" "karaoke response" | TimeoutFires

fun deliver :: "bool \<Rightarrow> nat \<times> nat \<Rightarrow> event \<Rightarrow> player \<Rightarrow> player" where
  "deliver isProcessing (p, q) (IntervalFires sr kr) s =
     (if armed p s then pollStatus p sr kr s else s)"
| "deliver isProcessing (p, q) TimeoutFires s =
     (if armed q s then pollingTimeout isProcessing p (clearInterval q s) else s)"

definition runSong ::
  "bool \<Rightarrow> karaoke response \<Rightarrow> unit response \<Rightarrow> event list \<Rightarrow> player \<Rightarrow> player" where
  "runSong isProcessing cachedResponse processResponse evs s =
     (case processSong isProcessing cachedResponse processResponse s of
        (s1, None) \<Rightarrow> s1
      | (s1, Some hs) \<Rightarrow> fold (deliver isProcessing hs) evs s1)"

text \<open>An event that brings no terminal status: a poll that is rejected, or one whose
  status is none of \<open>ready\<close>, \<open>failed\<close>, \<open>error\<close>.\<close>

fun nonTerminal :: "event \<Rightarrow> bool" where
  "nonTerminal (IntervalFires (Resolved d) kr) =
     (st_status d \<noteq> ''ready'' \<and> st_status d \<noteq> ''failed'' \<and> st_status d \<noteq> ''error'')"
| "nonTerminal (IntervalFires (Rejected st detail) kr) = True"
| "nonTerminal TimeoutFires = False"

subsection \<open>\<^verbatim>\<open>groupWordsIntoLines\<close> on a store of objects\<close>

text \<open>
  Arrays and word objects are references in JavaScript.  To say what a call may change,
  the function is modelled a second time on an explicit store: an object lives at an
  address, \<^verbatim>\<open>push\<close> updates an array in place, and an object or array literal allocates.
  An address is a position in the store; allocation appends.
\<close>

type_synonym addr = nat

datatype obj =
    WordObj word "nat option"
  | ArrayObj "addr list"

type_synonym store = "obj list"

definition alloc :: "obj \<Rightarrow> store \<Rightarrow> addr \<times> store" where
  "alloc ob h = (length h, h @ [ob])"

definition arrayAt :: "store \<Rightarrow> addr \<Rightarrow> addr list option" where
  "arrayAt h a = (case elemAt h a of Some (ArrayObj xs) \<Rightarrow> Some xs | _ \<Rightarrow> None)"

definition wordAt :: "store \<Rightarrow> addr \<Rightarrow> word option" where
  "wordAt h a = (case elemAt h a of Some (WordObj w ix) \<Rightarrow> Some w | _ \<Rightarrow> None)"

text \<open>\<^verbatim>\<open>arr.push(r)\<close>; \<open>None\<close> stands for the \<^verbatim>\<open>TypeError\<close> of a receiver that is
  no array.\<close>

definition push :: "addr \<Rightarrow> addr \<Rightarrow> store \<Rightarrow> store option" where
  "push arr r h =
     (case arrayAt h arr of None \<Rightarrow> None | Some xs \<Rightarrow> Some (h[arr := ArrayObj (xs @ [r])]))"

text \<open>The callback.  \<open>lyricsRef\<close> and \<open>lines\<close> are constants of the closure; the local
  \<^verbatim>\<open>currentLine\<close> is rebound when a line is closed, so it is part of the state.\<close>

definition forEachBodyS :: "addr \<Rightarrow> addr \<Rightarrow> nat \<Rightarrow> store \<times> addr \<Rightarrow> (store \<times> addr) option" where
  "forEachBodyS lyricsRef lines index st =
     (case st of (h, currentLine) \<Rightarrow>
        do {
          rs \<leftarrow> arrayAt h lyricsRef;
          wordRef \<leftarrow> elemAt rs index;
          word \<leftarrow> wordAt h wordRef;
          (c, h1) \<leftarrow> Some (alloc (WordObj word (Some index)) h);
          h2 \<leftarrow> push currentLine c h1;
          rs2 \<leftarrow> arrayAt h2 lyricsRef;
          nextWord \<leftarrow> (case elemAt rs2 (index + 1) of
                         None \<Rightarrow> Some None
                       | Some nr \<Rightarrow> map_option Some (wordAt h2 nr));
          cs \<leftarrow> arrayAt h2 currentLine;
          (let endsWithPunct = endsWithPunctuation (w_text word);
               largeGap = (case nextWord of None \<Rightarrow> False
                           | Some nw \<Rightarrow> w_start nw - w_end word > 0.8);
               lineTooLong = (length cs \<ge> 12)
           in if endsWithPunct \<or> largeGap \<or> lineTooLong \<or> nextWord = None
              then do {
                (copy, h3) \<leftarrow> Some (alloc (ArrayObj cs) h2);
                h4 \<leftarrow> push lines copy h3;
                (fresh, h5) \<leftarrow> Some (alloc (ArrayObj []) h4);
                Some (h5, fresh)
              }
              else Some (h2, currentLine))
        })"

fun foldOpt :: "('a \<Rightarrow> 's \<Rightarrow> 's option) \<Rightarrow> 'a list \<Rightarrow> 's \<Rightarrow> 's option" where
  "foldOpt f [] s = Some s"
| "foldOpt f (x # xs) s = (case f x s of None \<Rightarrow> None | Some s' \<Rightarrow> foldOpt f xs s')"

text \<open>The function: the argument is \<^verbatim>\<open>karaokeData?.lyrics\<close>, the result the reference
  of \<^verbatim>\<open>lines\<close> and the store the call leaves.\<close>

definition groupWordsIntoLinesS :: "addr option \<Rightarrow> store \<Rightarrow> (addr \<times> store) option" where
  "groupWordsIntoLinesS lyricsRef h =
     (case lyricsRef of
        None \<Rightarrow> Some (alloc (ArrayObj []) h)
      | Some a \<Rightarrow>
          do {
            rs \<leftarrow> arrayAt h a;
            (lines, h1) \<leftarrow> Some (alloc (ArrayObj []) h);
            (currentLine, h2) \<leftarrow> Some (alloc (ArrayObj []) h1);
            (h3, cl) \<leftarrow> foldOpt (forEachBodyS a lines) [0..<length rs] (h2, currentLine);
            Some (lines, h3)
          })"

text \<open>Reading values back from the store: the words of a lyrics array, and the lines of
  a result.\<close>

fun readAll :: "(addr \<Rightarrow> 'a option) \<Rightarrow> addr list \<Rightarrow> 'a list option" where
  "readAll f [] = Some []"
| "readAll f (r # rs) =
     (case f r of None \<Rightarrow> None
      | Some x \<Rightarrow> (case readAll f rs of None \<Rightarrow> None | Some xs \<Rightarrow> Some (x # xs)))"

definition readWords :: "store \<Rightarrow> addr \<Rightarrow> word list option" where
  "readWords h a = (case arrayAt h a of None \<Rightarrow> None | Some rs \<Rightarrow> readAll (wordAt h) rs)"

definition lineWordAt :: "store \<Rightarrow> addr \<Rightarrow> lineWord option" where
  "lineWordAt h c =
     (case elemAt h c of Some (WordObj w (Some i)) \<Rightarrow> Some (spread w i) | _ \<Rightarrow> None)"

definition lineAt :: "store \<Rightarrow> addr \<Rightarrow> lineWord list option" where
  "lineAt h l = (case arrayAt h l of None \<Rightarrow> None | Some cs \<Rightarrow> readAll (lineWordAt h) cs)"

definition readLines :: "store \<Rightarrow> addr \<Rightarrow> lineWord list list option" where
  "readLines h r = (case arrayAt h r of None \<Rightarrow> None | Some ls \<Rightarrow> readAll (lineAt h) ls)"

text \<open>The invariant of the loop on the store, after \<open>k\<close> words: the store the call
  started from is untouched, \<^verbatim>\<open>lines\<close> and \<^verbatim>\<open>currentLine\<close> are arrays allocated by
  the call, and what they hold is the state of the loop on values.\<close>

definition groupInv :: "store \<Rightarrow> word list \<Rightarrow> nat \<Rightarrow> store \<times> addr \<Rightarrow> bool" where
  "groupInv h lyr k st =
     (case st of (hk, cl) \<Rightarrow>
        take (length h) hk = h \<and> length h < cl \<and> cl < length hk \<and>
        (\<exists>ls cs. arrayAt hk (length h) = Some ls \<and> arrayAt hk cl = Some cs
            \<and> cl \<notin> set ls \<and> length h \<notin> set ls
            \<and> readAll (lineAt hk) ls = Some (fst (loopState lyr k))
            \<and> readAll (lineWordAt hk) cs = Some (snd (loopState lyr k))))"

subsection \<open>Inputs used below\<close>

definition scenarioA :: "word list" where
  "scenarioA = [\<lparr>w_text = ''Hello'', w_start = 1.0, w_end = 1.4\<rparr>,
                \<lparr>w_text = ''world'', w_start = 1.5, w_end = 2.0\<rparr>]"

definition unsortedLyrics :: "word list" where
  "unsortedLyrics = [\<lparr>w_text = ''a'', w_start = 0, w_end = 1\<rparr>,
                     \<lparr>w_text = ''b'', w_start = 5, w_end = 6\<rparr>,
                     \<lparr>w_text = ''c'', w_start = 1, w_end = 2\<rparr>,
                     \<lparr>w_text = ''d'', w_start = 10, w_end = 11\<rparr>]"

definition lateFirst :: "word list" where
  "lateFirst = [\<lparr>w_text = ''a'', w_start = 5, w_end = 6\<rparr>,
                \<lparr>w_text = ''b'', w_start = 1, w_end = 2\<rparr>,
                \<lparr>w_text = ''c'', w_start = 3, w_end = 4\<rparr>]"

text \<open>A player with the two words of scenario A loaded, paused at time 0.\<close>

definition pausedPlayer :: player where
  "pausedPlayer =
     \<lparr>karaokeData = Some \<lparr>lyrics = Some scenarioA, audio_url = ''/audio/1''\<rparr>,
      error = None, isPlaying = False, currentTime = 0, duration = 3,
      currentWordIndex = - 1, syncOffset = 0.2, autoScrollEnabled = False,
      audioRef = Some \<lparr>a_currentTime = 0, a_paused = True\<rparr>,
      intervalRef = None, timers = [], nextTimer = 0,
      processing = False, statusRequests = 0\<rparr>"


text \<open>A backend message that holds two of the trigger phrases.\<close>

definition mixedMessage :: string where
  "mixedMessage = ''Failed to convert: Downloaded file not found''"

text \<open>What the backend answers while a song is in the pipeline, and a run of events in
  which the timeout fires after two such polls.\<close>

definition stillProcessing :: "statusData response" where
  "stillProcessing = Resolved \<lparr>st_status = ''processing'', st_error = None, st_message = None\<rparr>"

definition notCached :: "karaoke response" where
  "notCached = Rejected (Some 404) (Some ''Not found'')"

definition timeoutRun :: "event list" where
  "timeoutRun = [IntervalFires stillProcessing notCached, IntervalFires stillProcessing notCached,
                 TimeoutFires, IntervalFires stillProcessing notCached]"

text \<open>The player when the error box with its Try Again button is on screen: every
  \<^verbatim>\<open>setError\<close> with a message comes with \<^verbatim>\<open>setIsProcessing(false)\<close>.  And the
  player as the parent mounts it after a song was chosen, \<^verbatim>\<open>isProcessing\<close> set.\<close>

definition failedPlayer :: player where
  "failedPlayer =
     \<lparr>karaokeData = None, error = Some ''Failed to load karaoke data'', isPlaying = False,
      currentTime = 0, duration = 0, currentWordIndex = - 1, syncOffset = 0.2,
      autoScrollEnabled = True, audioRef = None, intervalRef = None, timers = [],
      nextTimer = 0, processing = False, statusRequests = 0\<rparr>"

definition mountedPlayer :: player where
  "mountedPlayer = failedPlayer\<lparr>error := None, processing := True\<rparr>"

text \<open>Four words with a comma and a pause, and fourteen words sung evenly with neither.\<close>

definition fourWords :: "word list" where
  "fourWords = [\<lparr>w_text = ''Hello,'', w_start = 1.0, w_end = 1.4\<rparr>,
                \<lparr>w_text = ''world'', w_start = 1.5, w_end = 2.0\<rparr>,
                \<lparr>w_text = ''once'', w_start = 3.0, w_end = 3.4\<rparr>,
                \<lparr>w_text = ''more'', w_start = 3.5, w_end = 3.6\<rparr>]"


text \<open>A store that holds the two words of scenario A and their array, at address 2.\<close>

definition exStore :: store where
  "exStore = [WordObj \<lparr>w_text = ''Hello'', w_start = 1.0, w_end = 1.4\<rparr> None,
              WordObj \<lparr>w_text = ''world'', w_start = 1.5, w_end = 2.0\<rparr> None,
              ArrayObj [0, 1]]"

section \<open>Properties\<close>

subsection \<open>The scan, index by index\<close>

lemma scanFrom_step:
  "i < length ws \<Longrightarrow>
   scanFrom ws t i = (if isActive ws t i then int i else scanFrom ws t (i + 1))"
  by (subst scanFrom.simps) (auto simp: isActive_def elemAt_def Let_def)

lemma scanFrom_end: "length ws \<le> i \<Longrightarrow> scanFrom ws t i = - 1"
  by (subst scanFrom.simps) simp

lemma isActive_bound: "isActive ws t j \<Longrightarrow> j < length ws"
  by (simp add: isActive_def)

lemma scanFrom_first:
  "scanFrom ws t i = int k \<longleftrightarrow>
     i \<le> k \<and> isActive ws t k \<and> (\<forall>j. i \<le> j \<and> j < k \<longrightarrow> \<not> isActive ws t j)"
proof (induction "length ws - i" arbitrary: i)
  case 0
  then have "length ws \<le> i" by simp
  then show ?case using isActive_bound[of ws t k]
    by (auto simp: scanFrom_end)
next
  case (Suc n)
  then have lt: "i < length ws" by simp
  from Suc have "n = length ws - (i + 1)" by simp
  note IH = Suc.hyps(1)[OF this]
  show ?case
  proof (cases "isActive ws t i")
    case True
    have "i = k \<longleftrightarrow> i \<le> k \<and> isActive ws t k \<and> (\<forall>j. i \<le> j \<and> j < k \<longrightarrow> \<not> isActive ws t j)"
      using True by (metis le_neq_implies_less order_refl not_less_iff_gr_or_eq)
    then show ?thesis using lt True by (simp add: scanFrom_step)
  next
    case False
    have "(i + 1 \<le> k \<and> isActive ws t k \<and> (\<forall>j. i + 1 \<le> j \<and> j < k \<longrightarrow> \<not> isActive ws t j))
       \<longleftrightarrow> (i \<le> k \<and> isActive ws t k \<and> (\<forall>j. i \<le> j \<and> j < k \<longrightarrow> \<not> isActive ws t j))"
      (is "?L \<longleftrightarrow> ?R")
    proof
      assume L: ?L
      have "\<not> isActive ws t j" if "i \<le> j" "j < k" for j
      proof (cases "j = i")
        case True then show ?thesis using False by simp
      next
        case False then show ?thesis using L that by simp
      qed
      then show ?R using L by simp
    next
      assume R: ?R
      then have "i \<noteq> k" using False by blast
      then show ?L using R by simp
    qed
    then show ?thesis using lt False IH by (simp add: scanFrom_step)
  qed
qed

lemma scanFrom_none:
  "scanFrom ws t i = - 1 \<longleftrightarrow> (\<forall>j\<ge>i. \<not> isActive ws t j)"
proof (induction "length ws - i" arbitrary: i)
  case 0
  then have "length ws \<le> i" by simp
  then show ?case using isActive_bound[of ws t]
    by (fastforce simp: scanFrom_end)
next
  case (Suc n)
  then have lt: "i < length ws" by simp
  from Suc have "n = length ws - (i + 1)" by simp
  note IH = Suc.hyps(1)[OF this]
  show ?case
  proof (cases "isActive ws t i")
    case True
    then show ?thesis using lt by (auto simp: scanFrom_step)
  next
    case False
    have "(\<forall>j\<ge>i + 1. \<not> isActive ws t j) \<longleftrightarrow> (\<forall>j\<ge>i. \<not> isActive ws t j)"
    proof
      assume L: "\<forall>j\<ge>i + 1. \<not> isActive ws t j"
      show "\<forall>j\<ge>i. \<not> isActive ws t j"
      proof (intro allI impI)
        fix j assume "i \<le> j"
        then show "\<not> isActive ws t j" using L False by (cases "j = i") simp_all
      qed
    next
      assume "\<forall>j\<ge>i. \<not> isActive ws t j"
      then show "\<forall>j\<ge>i + 1. \<not> isActive ws t j" by simp
    qed
    then show ?thesis using lt False IH by (simp add: scanFrom_step)
  qed
qed


lemma scanFrom_cases:
  "scanFrom ws t i = - 1 \<or> (\<exists>k. scanFrom ws t i = int k)"
proof (induction "length ws - i" arbitrary: i)
  case 0
  then show ?case by (simp add: scanFrom_end)
next
  case (Suc n)
  then have lt: "i < length ws" by simp
  from Suc have "n = length ws - (i + 1)" by simp
  from Suc.hyps(1)[OF this] lt show ?case
    by (simp add: scanFrom_step)
qed

text \<open>Once some word has started, some word is active: the last one that has started.\<close>

lemma exists_active:
  assumes "j < length ws" and "w_start (ws ! j) \<le> t"
  shows "\<exists>k. isActive ws t k"
proof -
  let ?P = "\<lambda>k. k < length ws \<and> w_start (ws ! k) \<le> t"
  have Pj: "?P j" using assms by simp
  have bnd: "?P y \<Longrightarrow> y \<le> length ws" for y by simp
  define g where "g = (GREATEST k. ?P k)"
  have Pg: "?P g" unfolding g_def by (rule GreatestI_nat[where P = ?P, OF Pj bnd])
  have mx: "y \<le> g" if "?P y" for y
    unfolding g_def by (rule Greatest_le_nat[where P = ?P, OF that bnd])
  have "g + 1 = length ws \<or> t < w_start (ws ! (g + 1))"
  proof (rule ccontr)
    assume "\<not> ?thesis"
    then have "?P (g + 1)" using Pg by simp
    from mx[OF this] show False by simp
  qed
  then have "isActive ws t g" using Pg by (simp add: isActive_def)
  then show ?thesis ..
qed

lemma sorted_starts:
  "sorted (map w_start ws) \<Longrightarrow> i \<le> j \<Longrightarrow> j < length ws \<Longrightarrow>
   w_start (ws ! i) \<le> w_start (ws ! j)"
  using sorted_nth_mono[of "map w_start ws" i j] by simp

lemma active_unique_sorted:
  assumes srt: "sorted (map w_start ws)"
    and a: "isActive ws t i" and b: "isActive ws t j"
  shows "i = j"
proof -
  have aux: False if "isActive ws t p" "isActive ws t q" "p < q" for p q
  proof -
    from that have q: "q < length ws" and "p + 1 \<noteq> length ws" by (auto simp: isActive_def)
    with that(1) have "t < w_start (ws ! (p + 1))" by (simp add: isActive_def)
    also have "\<dots> \<le> w_start (ws ! q)" using sorted_starts[OF srt _ q, of "p + 1"] that(3) by simp
    also have "\<dots> \<le> t" using that(2) by (simp add: isActive_def)
    finally show False by simp
  qed
  show ?thesis using aux[of i j] aux[of j i] a b by (cases i j rule: linorder_cases) auto
qed

subsection \<open>Which word the scan selects\<close>

text \<open>
  Claim C1, as amended.  For every word sequence, actual time \<open>t\<close> and offset \<open>off\<close>, the
  scan of a tick selects index \<open>i\<close> exactly when \<open>i\<close> is the lowest index whose word has
  started at the synced time \<open>t + off\<close> and whose successor, if any, has not.  On a sequence
  sorted by start there is only one such index, so there the scan selects \<open>i\<close> exactly
  when \<open>i\<close> satisfies the condition.  For the two words Hello (1.0 to 1.4) and world
  (1.5 to 2.0), time 1.6 and offset 0.0 the scan selects index 1.
\<close>

theorem scan_selects_first_active:
  "(foundIndex ws (t + off) = int i \<longleftrightarrow>
      isActive ws (t + off) i \<and> (\<forall>j<i. \<not> isActive ws (t + off) j)) \<and>
   (sorted (map w_start ws) \<longrightarrow>
      (foundIndex ws (t + off) = int i \<longleftrightarrow> isActive ws (t + off) i)) \<and>
   foundIndex scenarioA (1.6 + 0.0) = 1"
proof (intro conjI impI)
  show first: "foundIndex ws (t + off) = int i \<longleftrightarrow>
      isActive ws (t + off) i \<and> (\<forall>j<i. \<not> isActive ws (t + off) j)"
    by (simp add: foundIndex_def scanFrom_first)
  show "foundIndex ws (t + off) = int i \<longleftrightarrow> isActive ws (t + off) i"
    if "sorted (map w_start ws)"
    using first active_unique_sorted[OF that] by blast
  show "foundIndex scenarioA (1.6 + 0.0) = 1"
    by (simp add: foundIndex_def scenarioA_def scanFrom.simps elemAt_def)
qed

theorem scan_selects_first_active_witness:
  "foundIndex scenarioA (1.6 + 0.0) = int 1 \<and> isActive scenarioA (1.6 + 0.0) 1
   \<and> \<not> isActive scenarioA (1.6 + 0.0) 0 \<and> sorted (map w_start scenarioA)"
proof -
  have s: "sorted (map w_start scenarioA)" by (simp add: scenarioA_def)
  have f: "foundIndex scenarioA (1.6 + 0.0) = int 1"
    by (simp add: foundIndex_def scenarioA_def scanFrom.simps elemAt_def)
  from scan_selects_first_active[of scenarioA "1.6" "0.0" 1] s f show ?thesis by auto
qed

text \<open>
  The claim as it was stated fails on a sequence that is not sorted: with starts
  0, 5, 1, 10 and synced time 2 the word at index 2 satisfies the condition, and the scan
  selects index 0.
\<close>

theorem scan_not_unique_counterexample:
  "isActive unsortedLyrics (2 + 0) 2 \<and> foundIndex unsortedLyrics (2 + 0) \<noteq> 2"
  by (simp add: isActive_def unsortedLyrics_def foundIndex_def scanFrom.simps elemAt_def)

subsection \<open>No word selected\<close>

text \<open>
  Claim C4, as amended.  On the empty sequence the scan yields \<open>- 1\<close> for every time and
  offset (the model has no failing branch: the loop body is not entered).  For every
  non-empty sequence sorted by start, if \<open>t + off\<close> is strictly less than the start of
  the first word, the scan yields \<open>- 1\<close>.
\<close>

theorem scan_empty_and_before_first:
  "foundIndex [] (t + off) = - 1 \<and>
   (ws \<noteq> [] \<and> sorted (map w_start ws) \<and> t + off < w_start (ws ! 0)
      \<longrightarrow> foundIndex ws (t + off) = - 1)"
proof (intro conjI impI)
  show "foundIndex [] (t + off) = - 1"
    by (simp add: foundIndex_def scanFrom_end)
  assume a: "ws \<noteq> [] \<and> sorted (map w_start ws) \<and> t + off < w_start (ws ! 0)"
  have "\<not> isActive ws (t + off) j" for j
  proof
    assume act: "isActive ws (t + off) j"
    then have j: "j < length ws" and le: "w_start (ws ! j) \<le> t + off"
      by (simp_all add: isActive_def)
    have "w_start (ws ! 0) \<le> w_start (ws ! j)"
      using sorted_starts[of ws 0 j] a j by simp
    with le a show False by simp
  qed
  then show "foundIndex ws (t + off) = - 1"
    by (simp add: foundIndex_def scanFrom_none)
qed

theorem scan_empty_and_before_first_witness:
  "scenarioA \<noteq> [] \<and> sorted (map w_start scenarioA) \<and> 0.5 + 0.0 < w_start (scenarioA ! 0)
   \<and> foundIndex scenarioA (0.5 + 0.0) = - 1"
proof -
  have h: "scenarioA \<noteq> [] \<and> sorted (map w_start scenarioA) \<and> 0.5 + 0.0 < w_start (scenarioA ! 0)"
    by (simp add: scenarioA_def)
  from scan_empty_and_before_first[of "0.5" "0.0" scenarioA] h show ?thesis by blast
qed

text \<open>
  Without the order the second half fails: with starts 5, 1, 3 and synced time 2, before
  the first word's start, the scan selects index 1.
\<close>

theorem scan_before_first_counterexample:
  "lateFirst \<noteq> [] \<and> 2 + 0 < w_start (lateFirst ! 0) \<and> foundIndex lateFirst (2 + 0) \<noteq> - 1"
  by (simp add: lateFirst_def foundIndex_def scanFrom.simps elemAt_def)

subsection \<open>The selected index grows with time\<close>

text \<open>
  Claim C7.  For every word sequence sorted by start and synced times \<open>t1 \<le> t2\<close>, the
  index the scan selects at \<open>t2\<close> is at least the index it selects at \<open>t1\<close>, with
  \<open>- 1\<close> below every index.
\<close>

theorem scan_monotone:
  assumes srt: "sorted (map w_start ws)" and le: "t1 \<le> t2"
  shows "foundIndex ws t1 \<le> foundIndex ws t2"
proof -
  consider "foundIndex ws t1 = - 1" | k1 where "foundIndex ws t1 = int k1"
    using scanFrom_cases[of ws t1 0] by (auto simp: foundIndex_def)
  then show ?thesis
  proof cases
    case 1
    then show ?thesis using scanFrom_cases[of ws t2 0] by (auto simp: foundIndex_def)
  next
    case 2
    then have a1: "isActive ws t1 k1" by (simp add: foundIndex_def scanFrom_first)
    then have k1: "k1 < length ws" and s1: "w_start (ws ! k1) \<le> t2"
      using le by (simp_all add: isActive_def)
    from exists_active[OF k1 s1] have "foundIndex ws t2 \<noteq> - 1"
      by (simp add: foundIndex_def scanFrom_none)
    then obtain k2 where f2: "foundIndex ws t2 = int k2"
      using scanFrom_cases[of ws t2 0] by (auto simp: foundIndex_def)
    then have a2: "isActive ws t2 k2" by (simp add: foundIndex_def scanFrom_first)
    have "k1 \<le> k2"
    proof (rule ccontr)
      assume "\<not> k1 \<le> k2"
      then have lt: "k2 + 1 \<le> k1" by simp
      with k1 have "k2 + 1 \<noteq> length ws" by simp
      with a2 have "t2 < w_start (ws ! (k2 + 1))" by (simp add: isActive_def)
      also have "\<dots> \<le> w_start (ws ! k1)" by (rule sorted_starts[OF srt lt k1])
      also have "\<dots> \<le> t1" using a1 by (simp add: isActive_def)
      finally show False using le by simp
    qed
    then show ?thesis using 2 f2 by simp
  qed
qed

theorem scan_monotone_witness:
  "sorted (map w_start scenarioA) \<and> (0.5::rat) \<le> 1.6
   \<and> foundIndex scenarioA 0.5 \<le> foundIndex scenarioA 1.6
   \<and> foundIndex scenarioA 0.5 = - 1 \<and> foundIndex scenarioA 1.6 = 1"
proof -
  have s: "sorted (map w_start scenarioA)" by (simp add: scenarioA_def)
  have l: "(0.5::rat) \<le> 1.6" by simp
  have v: "foundIndex scenarioA 0.5 = - 1 \<and> foundIndex scenarioA 1.6 = 1"
    by (simp add: foundIndex_def scenarioA_def scanFrom.simps elemAt_def)
  from scan_monotone[OF s l] s l v show ?thesis by simp
qed


subsection \<open>A click on a word\<close>



text \<open>Before the audio element is mounted a click does nothing.\<close>

lemma click_without_audio: "audioRef s = None \<Longrightarrow> onClickWord word s = s"
  by (simp add: onClickWord_def handleLyricClick_def)

subsection \<open>A tick never clears the stored index\<close>

text \<open>What a tick stores: the index the scan selects at the synced time, when there is
  one.\<close>

lemma updateProgress_stores_found:
  "audioRef s = Some au \<Longrightarrow> lyricsOf (karaokeData s) = Some ly \<Longrightarrow>
   currentWordIndex (updateProgress s) =
     (if foundIndex ly (a_currentTime au + syncOffset s) = - 1 then currentWordIndex s
      else foundIndex ly (a_currentTime au + syncOffset s))
   \<and> currentTime (updateProgress s) = a_currentTime au"
  by (simp add: updateProgress_def Let_def)

lemma updateProgress_index:
  "currentWordIndex (updateProgress s) = currentWordIndex s
   \<or> 0 \<le> currentWordIndex (updateProgress s)"
proof (cases "audioRef s")
  case None
  then show ?thesis by (simp add: updateProgress_def)
next
  case (Some au)
  show ?thesis
  proof (cases "lyricsOf (karaokeData s)")
    case None
    with Some show ?thesis by (simp add: updateProgress_def)
  next
    case (Some ly)
    from scanFrom_cases[of ly "a_currentTime au + syncOffset s" 0]
    show ?thesis using Some \<open>audioRef s = Some au\<close>
      by (auto simp: updateProgress_def Let_def foundIndex_def)
  qed
qed

lemma audioClock_index: "currentWordIndex (audioClock t s) = currentWordIndex s"
  by (simp add: audioClock_def split: option.split)

lemma runTicks_index:
  "0 \<le> currentWordIndex s \<Longrightarrow> 0 \<le> currentWordIndex (runTicks ts s)"
proof (induction ts arbitrary: s)
  case Nil
  then show ?case by simp
next
  case (Cons t ts)
  have "0 \<le> currentWordIndex (updateProgress (audioClock t s))"
    using updateProgress_index[of "audioClock t s"] Cons.prems
    by (auto simp: audioClock_index)
  from Cons.IH[OF this] show ?case by simp
qed

text \<open>
  Claim C10.  Once the stored index is at least 0, it is at least 0 after any run of
  progress ticks, whatever the audio clock reads at each of them.  A tick whose scan
  finds no active word (result \<open>- 1\<close>) leaves the stored index as it was.
\<close>

theorem tick_never_clears_index:
  "(0 \<le> currentWordIndex s \<longrightarrow> 0 \<le> currentWordIndex (runTicks ts s))
   \<and> (audioRef s = Some au \<and> lyricsOf (karaokeData s) = Some ly
        \<and> foundIndex ly (a_currentTime au + syncOffset s) = - 1
      \<longrightarrow> currentWordIndex (updateProgress s) = currentWordIndex s)"
proof (intro conjI impI)
  assume "0 \<le> currentWordIndex s"
  then show "0 \<le> currentWordIndex (runTicks ts s)" by (rule runTicks_index)
next
  assume "audioRef s = Some au \<and> lyricsOf (karaokeData s) = Some ly
        \<and> foundIndex ly (a_currentTime au + syncOffset s) = - 1"
  then show "currentWordIndex (updateProgress s) = currentWordIndex s"
    by (simp add: updateProgress_def Let_def)
qed

text \<open>The witness: word 1 is highlighted and the clock is put back to 0.1, before the
  first word; a tick there, and one more at 0.2, leave index 1.\<close>

theorem tick_never_clears_index_witness:
  "0 \<le> currentWordIndex (audioClock 0.1 (pausedPlayer\<lparr>currentWordIndex := 1\<rparr>))
   \<and> currentWordIndex (runTicks [0.2] (audioClock 0.1 (pausedPlayer\<lparr>currentWordIndex := 1\<rparr>))) = 1
   \<and> audioRef (audioClock 0.1 (pausedPlayer\<lparr>currentWordIndex := 1\<rparr>))
        = Some \<lparr>a_currentTime = 0.1, a_paused = True\<rparr>
   \<and> lyricsOf (karaokeData (audioClock 0.1 (pausedPlayer\<lparr>currentWordIndex := 1\<rparr>))) = Some scenarioA
   \<and> foundIndex scenarioA (0.1 + 0.2) = - 1
   \<and> currentWordIndex (updateProgress (audioClock 0.1 (pausedPlayer\<lparr>currentWordIndex := 1\<rparr>))) = 1"
proof -
  let ?s = "audioClock 0.1 (pausedPlayer\<lparr>currentWordIndex := 1\<rparr>)"
  have a: "audioRef ?s = Some \<lparr>a_currentTime = 0.1, a_paused = True\<rparr>"
    "lyricsOf (karaokeData ?s) = Some scenarioA" "syncOffset ?s = 0.2" "currentWordIndex ?s = 1"
    by (simp_all add: audioClock_def pausedPlayer_def lyricsOf_def)
  have f: "foundIndex scenarioA (0.1 + 0.2) = - 1"
    by (simp add: foundIndex_def scenarioA_def scanFrom.simps elemAt_def)
  have r: "currentWordIndex (runTicks [0.2] ?s) = 1"
    by (simp add: audioClock_def pausedPlayer_def lyricsOf_def updateProgress_def Let_def
        foundIndex_def scenarioA_def scanFrom.simps elemAt_def)
  from tick_never_clears_index[of ?s "[0.2]" "\<lparr>a_currentTime = 0.1, a_paused = True\<rparr>" scenarioA]
    a f r show ?thesis by simp
qed


subsection \<open>Classification of a backend failure\<close>

lemma startsWith_iff: "startsWith s p \<longleftrightarrow> (\<exists>b. s = p @ b)"
  by (induction s p rule: startsWith.induct) auto

text \<open>\<open>includesStr\<close> is the substring test.\<close>

lemma includesStr_iff: "includesStr s p \<longleftrightarrow> (\<exists>a b. s = a @ p @ b)"
proof (induction s)
  case Nil
  then show ?case by simp
next
  case (Cons c cs)
  show ?case
  proof
    assume "includesStr (c # cs) p"
    then consider "startsWith (c # cs) p" | "includesStr cs p" by auto
    then show "\<exists>a b. c # cs = a @ p @ b"
    proof cases
      case 1
      then obtain b where "c # cs = p @ b" by (auto simp: startsWith_iff)
      then have "c # cs = [] @ p @ b" by simp
      then show ?thesis by blast
    next
      case 2
      with Cons obtain a b where "cs = a @ p @ b" by blast
      then have "c # cs = (c # a) @ p @ b" by simp
      then show ?thesis by blast
    qed
  next
    assume "\<exists>a b. c # cs = a @ p @ b"
    then obtain a b where ab: "c # cs = a @ p @ b" by blast
    show "includesStr (c # cs) p"
    proof (cases a)
      case Nil
      with ab have "startsWith (c # cs) p" by (auto simp: startsWith_iff)
      then show ?thesis by simp
    next
      case (Cons x xs)
      with ab have "cs = xs @ p @ b" by simp
      with Cons.IH have "includesStr cs p" by blast
      then show ?thesis by simp
    qed
  qed
qed

text \<open>
  Claim C8, as amended.  On a poll whose status is \<open>failed\<close> or \<open>error\<close> the raw message
  is the \<open>error\<close> field, else the \<open>message\<close> field, else the default \<open>Processing failed\<close>
  (a missing or empty field counts as absent), and the error shown is classified from
  it by substring, the first rule that matches winning: a download phrase gives the
  download explanation; a conversion phrase without a download phrase gives the
  conversion explanation; a separation phrase without a download or conversion phrase
  gives the separation explanation; a message with none of the phrases is shown as it
  is.
\<close>

theorem failure_classified_in_order:
  "(includesStr m ''Downloaded file not found'' \<or> includesStr m ''downloaded file is empty''
      \<longrightarrow> userFriendlyError m = downloadUnavailable)
   \<and> (\<not> includesStr m ''Downloaded file not found'' \<and> \<not> includesStr m ''downloaded file is empty''
        \<and> includesStr m ''Failed to convert''
      \<longrightarrow> userFriendlyError m = conversionFailed)
   \<and> (\<not> includesStr m ''Downloaded file not found'' \<and> \<not> includesStr m ''downloaded file is empty''
        \<and> \<not> includesStr m ''Failed to convert''
        \<and> (includesStr m ''Separation'' \<or> includesStr m ''Demucs'')
      \<longrightarrow> userFriendlyError m = separationFailed)
   \<and> (\<not> includesStr m ''Downloaded file not found'' \<and> \<not> includesStr m ''downloaded file is empty''
        \<and> \<not> includesStr m ''Failed to convert''
        \<and> \<not> includesStr m ''Separation'' \<and> \<not> includesStr m ''Demucs''
      \<longrightarrow> userFriendlyError m = m)
   \<and> (st_error d = Some e \<and> e \<noteq> [] \<longrightarrow> errorMsg d = e)
   \<and> ((st_error d = None \<or> st_error d = Some []) \<and> st_message d = Some x \<and> x \<noteq> []
      \<longrightarrow> errorMsg d = x)
   \<and> ((st_error d = None \<or> st_error d = Some []) \<and> (st_message d = None \<or> st_message d = Some [])
      \<longrightarrow> errorMsg d = ''Processing failed'')
   \<and> (st_status d = ''failed'' \<or> st_status d = ''error''
      \<longrightarrow> error (pollStatus p (Resolved d) kr s) = Some (userFriendlyError (errorMsg d)))"
proof (intro conjI impI)
  show "errorMsg d = e" if "st_error d = Some e \<and> e \<noteq> []"
    using that by (simp add: errorMsg_def truthy_def)
  show "errorMsg d = x"
    if "(st_error d = None \<or> st_error d = Some []) \<and> st_message d = Some x \<and> x \<noteq> []"
    using that by (auto simp: errorMsg_def truthy_def)
  show "errorMsg d = ''Processing failed''"
    if "(st_error d = None \<or> st_error d = Some []) \<and> (st_message d = None \<or> st_message d = Some [])"
    using that by (auto simp: errorMsg_def truthy_def)
  show "error (pollStatus p (Resolved d) kr s) = Some (userFriendlyError (errorMsg d))"
    if "st_status d = ''failed'' \<or> st_status d = ''error''"
    using that by (auto simp: pollStatus_def Let_def clearInterval_def)
qed (simp_all add: userFriendlyError_def)

theorem failure_classified_in_order_witness:
  "includesStr ''yt-dlp: Downloaded file not found'' ''Downloaded file not found''
   \<and> userFriendlyError ''yt-dlp: Downloaded file not found'' = downloadUnavailable
   \<and> includesStr ''ffmpeg: Failed to convert'' ''Failed to convert''
   \<and> userFriendlyError ''ffmpeg: Failed to convert'' = conversionFailed
   \<and> includesStr ''Demucs crashed'' ''Demucs''
   \<and> userFriendlyError ''Demucs crashed'' = separationFailed
   \<and> userFriendlyError ''disk full'' = ''disk full''
   \<and> errorMsg \<lparr>st_status = ''failed'', st_error = Some ''disk full'', st_message = None\<rparr> = ''disk full''
   \<and> errorMsg \<lparr>st_status = ''failed'', st_error = Some [], st_message = Some ''no luck''\<rparr> = ''no luck''
   \<and> errorMsg \<lparr>st_status = ''error'', st_error = None, st_message = None\<rparr> = ''Processing failed''
   \<and> error (pollStatus 0 (Resolved \<lparr>st_status = ''failed'', st_error = Some ''disk full'', st_message = None\<rparr>)
              notCached mountedPlayer) = Some ''disk full''"
proof -
  have i: "includesStr ''yt-dlp: Downloaded file not found'' ''Downloaded file not found''"
    "includesStr ''ffmpeg: Failed to convert'' ''Failed to convert''"
    "includesStr ''Demucs crashed'' ''Demucs''"
    by simp_all
  have n: "\<not> includesStr ''ffmpeg: Failed to convert'' ''Downloaded file not found''"
    "\<not> includesStr ''ffmpeg: Failed to convert'' ''downloaded file is empty''"
    "\<not> includesStr ''Demucs crashed'' ''Downloaded file not found''"
    "\<not> includesStr ''Demucs crashed'' ''downloaded file is empty''"
    "\<not> includesStr ''Demucs crashed'' ''Failed to convert''"
    "\<not> includesStr ''disk full'' ''Downloaded file not found''"
    "\<not> includesStr ''disk full'' ''downloaded file is empty''"
    "\<not> includesStr ''disk full'' ''Failed to convert''"
    "\<not> includesStr ''disk full'' ''Separation''"
    "\<not> includesStr ''disk full'' ''Demucs''"
    by simp_all
  note c = failure_classified_in_order
  from c[of "''yt-dlp: Downloaded file not found''"] i
  have 1: "userFriendlyError ''yt-dlp: Downloaded file not found'' = downloadUnavailable" by blast
  from c[of "''ffmpeg: Failed to convert''"] i n
  have 2: "userFriendlyError ''ffmpeg: Failed to convert'' = conversionFailed" by blast
  from c[of "''Demucs crashed''"] i n
  have 3: "userFriendlyError ''Demucs crashed'' = separationFailed" by blast
  from c[of "''disk full''"] n
  have 4: "userFriendlyError ''disk full'' = ''disk full''" by blast
  from c[of _ "\<lparr>st_status = ''failed'', st_error = Some ''disk full'', st_message = None\<rparr>" "''disk full''" _ 0 notCached mountedPlayer]
  have 5: "errorMsg \<lparr>st_status = ''failed'', st_error = Some ''disk full'', st_message = None\<rparr> = ''disk full''"
    and 8: "error (pollStatus 0 (Resolved \<lparr>st_status = ''failed'', st_error = Some ''disk full'', st_message = None\<rparr>)
              notCached mountedPlayer) = Some (userFriendlyError ''disk full'')"
    by simp_all
  from c[of _ "\<lparr>st_status = ''failed'', st_error = Some [], st_message = Some ''no luck''\<rparr>" _ "''no luck''"]
  have 6: "errorMsg \<lparr>st_status = ''failed'', st_error = Some [], st_message = Some ''no luck''\<rparr> = ''no luck''"
    by simp
  from c[of _ "\<lparr>st_status = ''error'', st_error = None, st_message = None\<rparr>"]
  have 7: "errorMsg \<lparr>st_status = ''error'', st_error = None, st_message = None\<rparr> = ''Processing failed''"
    by simp
  from i 1 2 3 4 5 6 7 8 show ?thesis by simp
qed

text \<open>
  Without the order the claim fails: the message
  \<open>Failed to convert: Downloaded file not found\<close> contains the conversion phrase, and
  what is shown is the download explanation, not the conversion one.
\<close>

theorem conversion_phrase_counterexample:
  "includesStr mixedMessage ''Failed to convert''
   \<and> userFriendlyError mixedMessage = downloadUnavailable
   \<and> userFriendlyError mixedMessage \<noteq> conversionFailed"
  by (simp add: mixedMessage_def userFriendlyError_def downloadUnavailable_def
      conversionFailed_def)


subsection \<open>The polling timeout\<close>

lemma armed_statusRequests [simp]: "armed h (s\<lparr>statusRequests := n\<rparr>) = armed h s"
  by (simp add: armed_def)

lemma deliver_nonTerminal:
  "nonTerminal e \<Longrightarrow> armed p s \<Longrightarrow>
   deliver b (p, q) e s = s\<lparr>statusRequests := Suc (statusRequests s)\<rparr>"
  by (cases e rule: nonTerminal.cases) (simp_all add: pollStatus_def Let_def)

lemma fold_nonTerminal:
  "list_all nonTerminal evs \<Longrightarrow> armed p s \<Longrightarrow>
   fold (deliver b (p, q)) evs s = s\<lparr>statusRequests := statusRequests s + length evs\<rparr>"
proof (induction evs arbitrary: s)
  case Nil
  then show ?case by simp
next
  case (Cons e evs)
  then have e: "nonTerminal e" and rest: "list_all nonTerminal evs" by simp_all
  have "fold (deliver b (p, q)) (e # evs) s
          = fold (deliver b (p, q)) evs (s\<lparr>statusRequests := Suc (statusRequests s)\<rparr>)"
    using deliver_nonTerminal[OF e Cons.prems(2)] by simp
  also have "\<dots> = s\<lparr>statusRequests := statusRequests s + length (e # evs)\<rparr>"
    using Cons.IH[OF rest, of "s\<lparr>statusRequests := Suc (statusRequests s)\<rparr>"] Cons.prems(2)
    by simp
  finally show ?case .
qed

lemma deliver_disarmed:
  "\<not> armed p s \<Longrightarrow> \<not> armed q s \<Longrightarrow> deliver b (p, q) e s = s"
  by (cases e) simp_all

lemma fold_disarmed:
  "\<not> armed p s \<Longrightarrow> \<not> armed q s \<Longrightarrow> fold (deliver b (p, q)) evs s = s"
  by (induction evs) (simp_all add: deliver_disarmed)

lemma not_armed_clearInterval [simp]: "\<not> armed h (clearInterval h s)"
  by (auto simp: armed_def clearInterval_def)

lemma not_armed_clearInterval_other [simp]:
  "\<not> armed h s \<Longrightarrow> \<not> armed h (clearInterval k s)"
  by (auto simp: armed_def clearInterval_def)

lemma pollingTimeout_disarms:
  "\<not> armed p (pollingTimeout b p (clearInterval q s))"
  "\<not> armed q (pollingTimeout b p (clearInterval q s))"
  by (auto simp: pollingTimeout_def Let_def armed_def clearInterval_def)

lemma processSong_starts_polling:
  "processSong b (Rejected (Some 404) dt) (Resolved u) s = (s2, hs) \<Longrightarrow>
   hs = Some (nextTimer s, Suc (nextTimer s))
   \<and> armed (nextTimer s) s2 \<and> armed (Suc (nextTimer s)) s2
   \<and> error s2 = None \<and> processing s2 = processing s \<and> statusRequests s2 = statusRequests s"
  by (auto simp: processSong_def Let_def setInterval_def setTimeout_def armed_def)

text \<open>
  A run that was started with the prop \<open>isProcessing\<close> set, as the mount of the player
  does: polls without a terminal status, then the timeout.  The error is the timeout
  message, the parent's flag is cleared, and whatever fires later sends no status
  request.
\<close>

lemma timeout_when_processing:
  assumes nt: "list_all nonTerminal evs"
  shows "error (runSong True (Rejected (Some 404) dt) (Resolved u) (evs @ TimeoutFires # later) s)
           = Some ''Processing timeout. Please try again.''
    \<and> \<not> processing (runSong True (Rejected (Some 404) dt) (Resolved u) (evs @ TimeoutFires # later) s)
    \<and> statusRequests (runSong True (Rejected (Some 404) dt) (Resolved u) (evs @ TimeoutFires # later) s)
           = statusRequests s + length evs"
proof -
  obtain s2 hs where ps: "processSong True (Rejected (Some 404) dt) (Resolved u) s = (s2, hs)"
    by (cases "processSong True (Rejected (Some 404) dt) (Resolved u) s")
  let ?p = "nextTimer s" and ?q = "Suc (nextTimer s)"
  from processSong_starts_polling[OF ps]
  have hs: "hs = Some (?p, ?q)" and ap: "armed ?p s2" and aq: "armed ?q s2"
    and st: "statusRequests s2 = statusRequests s" by simp_all
  let ?s3 = "s2\<lparr>statusRequests := statusRequests s2 + length evs\<rparr>"
  let ?s4 = "pollingTimeout True ?p (clearInterval ?q ?s3)"
  have f1: "fold (deliver True (?p, ?q)) evs s2 = ?s3"
    by (rule fold_nonTerminal[OF nt ap])
  have f2: "deliver True (?p, ?q) TimeoutFires ?s3 = ?s4" using aq by simp
  have f3: "fold (deliver True (?p, ?q)) later ?s4 = ?s4"
    by (rule fold_disarmed[OF pollingTimeout_disarms])
  have "runSong True (Rejected (Some 404) dt) (Resolved u) (evs @ TimeoutFires # later) s = ?s4"
    using ps hs f1 f2 f3 by (simp add: runSong_def)
  then show ?thesis using st
    by (simp add: pollingTimeout_def Let_def clearInterval_def)
qed

text \<open>
  The same run started with the prop unset, as Try Again starts it: the timeout clears
  the interval and reports nothing.
\<close>

lemma timeout_when_not_processing:
  assumes nt: "list_all nonTerminal evs"
  shows "error (runSong False (Rejected (Some 404) dt) (Resolved u) (evs @ TimeoutFires # later) s)
           = None
    \<and> processing (runSong False (Rejected (Some 404) dt) (Resolved u) (evs @ TimeoutFires # later) s)
           = processing s
    \<and> statusRequests (runSong False (Rejected (Some 404) dt) (Resolved u) (evs @ TimeoutFires # later) s)
           = statusRequests s + length evs"
proof -
  obtain s2 hs where ps: "processSong False (Rejected (Some 404) dt) (Resolved u) s = (s2, hs)"
    by (cases "processSong False (Rejected (Some 404) dt) (Resolved u) s")
  let ?p = "nextTimer s" and ?q = "Suc (nextTimer s)"
  from processSong_starts_polling[OF ps]
  have hs: "hs = Some (?p, ?q)" and ap: "armed ?p s2" and aq: "armed ?q s2"
    and st: "statusRequests s2 = statusRequests s" and er: "error s2 = None"
    and pr: "processing s2 = processing s" by simp_all
  let ?s3 = "s2\<lparr>statusRequests := statusRequests s2 + length evs\<rparr>"
  let ?s4 = "pollingTimeout False ?p (clearInterval ?q ?s3)"
  have f1: "fold (deliver False (?p, ?q)) evs s2 = ?s3"
    by (rule fold_nonTerminal[OF nt ap])
  have f2: "deliver False (?p, ?q) TimeoutFires ?s3 = ?s4" using aq by simp
  have f3: "fold (deliver False (?p, ?q)) later ?s4 = ?s4"
    by (rule fold_disarmed[OF pollingTimeout_disarms])
  have "runSong False (Rejected (Some 404) dt) (Resolved u) (evs @ TimeoutFires # later) s = ?s4"
    using ps hs f1 f2 f3 by (simp add: runSong_def)
  then show ?thesis using st er pr
    by (simp add: pollingTimeout_def Let_def clearInterval_def)
qed

text \<open>
  Claim C3 at a run the code can make.  Try Again is clicked while the error box is
  shown; the data are not cached, processing starts, two polls answer \<open>processing\<close> and
  the timeout fires.  No error is set and the job never becomes failed; the poll that
  would fire afterwards is not sent.  The same events on the freshly mounted player end
  with the timeout message.
\<close>

theorem retry_timeout_reports_nothing:
  "error (runSong False notCached (Resolved ()) timeoutRun failedPlayer) = None
   \<and> karaokeData (runSong False notCached (Resolved ()) timeoutRun failedPlayer) = None
   \<and> \<not> processing (runSong False notCached (Resolved ()) timeoutRun failedPlayer)
   \<and> statusRequests (runSong False notCached (Resolved ()) timeoutRun failedPlayer) = 2
   \<and> timers (runSong False notCached (Resolved ()) timeoutRun failedPlayer) = []
   \<and> error (runSong True notCached (Resolved ()) timeoutRun mountedPlayer)
       = Some ''Processing timeout. Please try again.''"
  by (simp add: runSong_def processSong_def notCached_def timeoutRun_def failedPlayer_def
      mountedPlayer_def stillProcessing_def setInterval_def setTimeout_def armed_def
      pollStatus_def pollingTimeout_def clearInterval_def Let_def)


subsection \<open>Lines: the loop state after each word\<close>

lemma loopState_0: "loopState lyr 0 = ([], [])"
  by (simp add: loopState_def)

lemma loopState_Suc:
  assumes "k < length lyr"
  shows "loopState lyr (Suc k) = forEachBody lyr (lyr ! k, k) (loopState lyr k)"
proof -
  have "take (Suc k) (zip lyr [0..<length lyr]) = take k (zip lyr [0..<length lyr]) @ [(lyr ! k, k)]"
    using assms by (simp add: take_Suc_conv_app_nth)
  then show ?thesis by (simp add: loopState_def)
qed

lemma groupWordsIntoLines_loaded:
  "groupWordsIntoLines (loaded lyr) = fst (loopState lyr (length lyr))"
  by (simp add: groupWordsIntoLines_def loaded_def lyricsOf_def loopState_def)

text \<open>Only the word sequence of the data matters.\<close>

lemma groupWordsIntoLines_lyrics:
  "lyricsOf kd = Some lyr \<Longrightarrow> groupWordsIntoLines kd = groupWordsIntoLines (loaded lyr)"
  by (simp add: groupWordsIntoLines_def loaded_def lyricsOf_def)

lemma forEachBody_eq:
  "k < length lyr \<Longrightarrow> forEachBody lyr (lyr ! k, k) (ls, cur) =
     (if closeCond lyr k (length cur)
      then (ls @ [cur @ [spread (lyr ! k) k]], [])
      else (ls, cur @ [spread (lyr ! k) k]))"
  by (auto simp: forEachBody_def closeCond_def elemAt_def Let_def)

lemma loopState_step:
  assumes "k < length lyr" and "loopState lyr k = (ls, cur)"
  shows "loopState lyr (Suc k) =
     (if closeCond lyr k (length cur)
      then (ls @ [cur @ [spread (lyr ! k) k]], [])
      else (ls, cur @ [spread (lyr ! k) k]))"
  using assms by (simp add: loopState_Suc forEachBody_eq)

lemma loopState_closed_iff:
  assumes "k < length lyr"
  shows "snd (loopState lyr (Suc k)) = [] \<longleftrightarrow> closeCond lyr k (length (snd (loopState lyr k)))"
  using loopState_step[OF assms, of "fst (loopState lyr k)" "snd (loopState lyr k)"] by simp

lemma loopState_concat:
  "k \<le> length lyr \<Longrightarrow>
   concat (fst (loopState lyr k)) @ snd (loopState lyr k) = map (\<lambda>j. spread (lyr ! j) j) [0..<k]"
proof (induction k)
  case 0
  then show ?case by (simp add: loopState_0)
next
  case (Suc k)
  then have k: "k < length lyr" by simp
  obtain ls cur where st: "loopState lyr k = (ls, cur)" by (cases "loopState lyr k")
  from Suc.IH st k have "concat ls @ cur = map (\<lambda>j. spread (lyr ! j) j) [0..<k]" by simp
  then show ?case using loopState_step[OF k st] by simp
qed

lemma loopState_nonempty:
  "k \<le> length lyr \<Longrightarrow> [] \<notin> set (fst (loopState lyr k))"
proof (induction k)
  case 0
  then show ?case by (simp add: loopState_0)
next
  case (Suc k)
  then have k: "k < length lyr" by simp
  obtain ls cur where st: "loopState lyr k = (ls, cur)" by (cases "loopState lyr k")
  from Suc.IH st k have "[] \<notin> set ls" by simp
  then show ?case using loopState_step[OF k st] by simp
qed


lemma loopState_final:
  "snd (loopState lyr (length lyr)) = []"
proof (cases "length lyr")
  case 0
  then show ?thesis by (simp add: loopState_def)
next
  case (Suc k)
  then have k: "k < length lyr" by simp
  have "closeCond lyr k (length (snd (loopState lyr k)))" using Suc by (simp add: closeCond_def)
  then show ?thesis using loopState_closed_iff[OF k] Suc by simp
qed



lemma lines_concat:
  "concat (groupWordsIntoLines (loaded lyr)) = map (\<lambda>j. spread (lyr ! j) j) [0..<length lyr]"
  using loopState_concat[of "length lyr" lyr]
  by (simp add: groupWordsIntoLines_loaded loopState_final)

lemma word_occurs:
  assumes "i < length lyr"
  shows "\<exists>l \<in> set (groupWordsIntoLines (loaded lyr)). \<exists>p<length l. w_index (l ! p) = i"
proof -
  have "spread (lyr ! i) i \<in> set (concat (groupWordsIntoLines (loaded lyr)))"
    using assms by (simp add: lines_concat)
  then obtain l where l: "l \<in> set (groupWordsIntoLines (loaded lyr))" and "spread (lyr ! i) i \<in> set l"
    by auto
  then obtain p where "p < length l" "l ! p = spread (lyr ! i) i"
    by (auto simp: in_set_conv_nth)
  then have "p < length l \<and> w_index (l ! p) = i" by (simp add: spread_def)
  with l show ?thesis by blast
qed







lemma truncate_spread: "word.truncate (spread w i) = w"
  by (simp add: word.truncate_def spread_def)

lemma index_spread: "w_index (spread w i) = i"
  by (simp add: spread_def)

lemma concat_member_unique:
  "distinct (concat M) \<Longrightarrow> a < length M \<Longrightarrow> b < length M \<Longrightarrow>
   x \<in> set (M ! a) \<Longrightarrow> x \<in> set (M ! b) \<Longrightarrow> a = b"
proof (induction M arbitrary: a b)
  case Nil
  then show ?case by simp
next
  case (Cons m ms)
  from Cons.prems(1) have d: "distinct (concat ms)" and dj: "set m \<inter> set (concat ms) = {}"
    by simp_all
  have inner: "x \<in> set (concat ms)" if "c < length ms" "x \<in> set (ms ! c)" for c
  proof -
    from that have "ms ! c \<in> set ms" by simp
    with that(2) show ?thesis by auto
  qed
  show ?case
  proof (cases a)
    case 0
    show ?thesis
    proof (cases b)
      case 0
      with \<open>a = 0\<close> show ?thesis by simp
    next
      case (Suc b')
      with Cons.prems have "x \<in> set m" "x \<in> set (concat ms)"
        using \<open>a = 0\<close> inner[of b'] by simp_all
      with dj show ?thesis by blast
    qed
  next
    case (Suc a')
    show ?thesis
    proof (cases b)
      case 0
      with Cons.prems have "x \<in> set m" "x \<in> set (concat ms)"
        using \<open>a = Suc a'\<close> inner[of a'] by simp_all
      with dj show ?thesis by blast
    next
      case (Suc b')
      with Cons.prems \<open>a = Suc a'\<close> have "a' = b'"
        using Cons.IH[OF d, of a' b'] by simp
      with Suc \<open>a = Suc a'\<close> show ?thesis by simp
    qed
  qed
qed

subsection \<open>Lines: the result is a partition\<close>

text \<open>
  Claim C2.  For every word sequence the result has no empty line; the lines' words,
  concatenated in order and with the added index dropped, are the original sequence;
  the added indices are \<open>0, 1, \<dots>\<close> in order; and every input position occurs in exactly
  one line.
\<close>

theorem lines_partition:
  "[] \<notin> set (groupWordsIntoLines (loaded lyr))
   \<and> map word.truncate (concat (groupWordsIntoLines (loaded lyr))) = lyr
   \<and> map w_index (concat (groupWordsIntoLines (loaded lyr))) = [0..<length lyr]
   \<and> (\<forall>i<length lyr. \<exists>!k. k < length (groupWordsIntoLines (loaded lyr))
          \<and> i \<in> set (map w_index (groupWordsIntoLines (loaded lyr) ! k)))"
proof (intro conjI allI impI)
  let ?out = "groupWordsIntoLines (loaded lyr)"
  show "[] \<notin> set ?out"
    using loopState_nonempty[of "length lyr" lyr] by (simp add: groupWordsIntoLines_loaded)
  show tr: "map word.truncate (concat ?out) = lyr"
    by (simp add: lines_concat truncate_spread o_def map_nth)
  show ix: "map w_index (concat ?out) = [0..<length lyr]"
    by (simp add: lines_concat index_spread o_def)
  fix i assume i: "i < length lyr"
  let ?M = "map (map w_index) ?out"
  have cM: "concat ?M = [0..<length lyr]" using ix by (simp add: map_concat)
  then have dM: "distinct (concat ?M)" by simp
  from word_occurs[OF i] obtain l p where l: "l \<in> set ?out" "p < length l" "w_index (l ! p) = i"
    by blast
  then obtain k where k: "k < length ?out" "?out ! k = l" by (auto simp: in_set_conv_nth)
  have "l ! p \<in> set l" using l by simp
  then have "i \<in> set (map w_index (?out ! k))" using l k by force
  moreover have "k' = k"
    if "k' < length ?out \<and> i \<in> set (map w_index (?out ! k'))" for k'
    using concat_member_unique[OF dM, of k' k i] that k calculation by simp
  ultimately show "\<exists>!k. k < length ?out \<and> i \<in> set (map w_index (?out ! k))"
    using k by blast
qed


theorem lines_partition_witness:
  "[] \<notin> set (groupWordsIntoLines (loaded fourWords))
   \<and> map word.truncate (concat (groupWordsIntoLines (loaded fourWords))) = fourWords
   \<and> map w_index (concat (groupWordsIntoLines (loaded fourWords))) = [0, 1, 2, 3]
   \<and> map (map w_index) (groupWordsIntoLines (loaded fourWords)) = [[0], [1], [2, 3]]
   \<and> 2 < length fourWords
   \<and> (\<exists>!k. k < length (groupWordsIntoLines (loaded fourWords))
          \<and> 2 \<in> set (map w_index (groupWordsIntoLines (loaded fourWords) ! k)))"
proof -
  have n: "length fourWords = 4" by (simp add: fourWords_def)
  have u: "[0..<4] = [0, 1, 2, 3]" by (simp add: upt_rec)
  have g: "map (map w_index) (groupWordsIntoLines (loaded fourWords)) = [[0], [1], [2, 3]]"
    by code_simp
  from lines_partition[of fourWords] n u g show ?thesis by simp
qed

subsection \<open>Lines on the store: reading and framing\<close>

lemma elemAt_Some_lt: "elemAt h p = Some x \<Longrightarrow> p < length h"
  by (simp add: elemAt_def split: if_splits)

lemma elemAt_take:
  assumes "take n hk = h" and "p < length h"
  shows "elemAt hk p = elemAt h p"
proof -
  from assms have "p < n" "p < length hk" by auto
  with assms show ?thesis by (auto simp: elemAt_def)
qed

lemma arrayAt_lt: "arrayAt h p = Some xs \<Longrightarrow> p < length h"
  by (auto simp: arrayAt_def dest: elemAt_Some_lt split: option.splits)

lemma wordAt_lt: "wordAt h p = Some w \<Longrightarrow> p < length h"
  by (auto simp: wordAt_def dest: elemAt_Some_lt split: option.splits)

lemma lineWordAt_lt: "lineWordAt h p = Some w \<Longrightarrow> p < length h"
  by (auto simp: lineWordAt_def dest: elemAt_Some_lt split: option.splits)

lemma arrayAt_not_lineWord: "arrayAt h p = Some xs \<Longrightarrow> lineWordAt h p = None"
  by (auto simp: arrayAt_def lineWordAt_def split: option.splits obj.splits)

lemma readAll_length: "readAll f rs = Some xs \<Longrightarrow> length xs = length rs"
  by (induction rs arbitrary: xs) (auto split: option.splits)

lemma readAll_nth:
  "readAll f rs = Some xs \<Longrightarrow> i < length rs \<Longrightarrow> f (rs ! i) = Some (xs ! i)"
proof (induction rs arbitrary: xs i)
  case Nil
  then show ?case by simp
next
  case (Cons r rs)
  then show ?case by (cases i) (auto split: option.splits)
qed

lemma readAll_mono:
  "(\<And>r x. r \<in> set rs \<Longrightarrow> f r = Some x \<Longrightarrow> g r = Some x) \<Longrightarrow>
   readAll f rs = Some xs \<Longrightarrow> readAll g rs = Some xs"
proof (induction rs arbitrary: xs)
  case Nil
  then show ?case by simp
next
  case (Cons r rs)
  from Cons.prems(2) obtain x ys where x: "f r = Some x" and ys: "readAll f rs = Some ys"
    and xs: "xs = x # ys" by (auto split: option.splits)
  have "g r = Some x" using Cons.prems(1)[of r x] x by simp
  moreover have "readAll g rs = Some ys" using Cons.IH[OF _ ys] Cons.prems(1) by simp
  ultimately show ?case using xs by simp
qed

lemma readAll_snoc:
  "readAll f rs = Some xs \<Longrightarrow> f r = Some x \<Longrightarrow> readAll f (rs @ [r]) = Some (xs @ [x])"
  by (induction rs arbitrary: xs) (auto split: option.splits)

lemma foldOpt_snoc:
  "foldOpt f (xs @ [x]) s = (case foldOpt f xs s of None \<Rightarrow> None | Some s' \<Rightarrow> f x s')"
  by (induction xs arbitrary: s) (auto split: option.splits)

text \<open>What a change of the store outside a set \<open>D\<close> of array addresses leaves readable.\<close>

lemma lineWordAt_frame:
  assumes same: "\<And>p. p < length h \<Longrightarrow> p \<notin> D \<Longrightarrow> elemAt h' p = elemAt h p"
    and arr: "\<And>d. d \<in> D \<Longrightarrow> lineWordAt h d = None"
    and c: "lineWordAt h c = Some x"
  shows "lineWordAt h' c = Some x"
proof -
  from c have "c < length h" by (rule lineWordAt_lt)
  moreover from c arr have "c \<notin> D" by auto
  ultimately have "elemAt h' c = elemAt h c" by (rule same)
  with c show ?thesis by (simp add: lineWordAt_def)
qed

lemma lineAt_frame:
  assumes same: "\<And>p. p < length h \<Longrightarrow> p \<notin> D \<Longrightarrow> elemAt h' p = elemAt h p"
    and arr: "\<And>d. d \<in> D \<Longrightarrow> lineWordAt h d = None"
    and l: "l \<notin> D" and r: "lineAt h l = Some ws"
  shows "lineAt h' l = Some ws"
proof -
  from r obtain cs where cs: "arrayAt h l = Some cs" and rd: "readAll (lineWordAt h) cs = Some ws"
    by (auto simp: lineAt_def split: option.splits)
  from cs have "l < length h" by (rule arrayAt_lt)
  with l have "elemAt h' l = elemAt h l" by (simp add: same)
  with cs have cs': "arrayAt h' l = Some cs" by (simp add: arrayAt_def)
  have "readAll (lineWordAt h') cs = Some ws"
    by (rule readAll_mono[OF _ rd]) (rule lineWordAt_frame[OF same arr], assumption+)
  with cs' show ?thesis by (simp add: lineAt_def)
qed

lemma lines_frame:
  assumes same: "\<And>p. p < length h \<Longrightarrow> p \<notin> D \<Longrightarrow> elemAt h' p = elemAt h p"
    and arr: "\<And>d. d \<in> D \<Longrightarrow> lineWordAt h d = None"
    and l: "set ls \<inter> D = {}" and r: "readAll (lineAt h) ls = Some wss"
  shows "readAll (lineAt h') ls = Some wss"
proof (rule readAll_mono[OF _ r])
  fix q ws assume "q \<in> set ls" "lineAt h q = Some ws"
  with l have "q \<notin> D" by auto
  from lineAt_frame[OF same arr this \<open>lineAt h q = Some ws\<close>]
  show "lineAt h' q = Some ws" by simp
qed


subsection \<open>Lines on the store: one step of the loop\<close>

lemma step_store:
  assumes A1: "arrayAt h a = Some rs" and A2: "readAll (wordAt h) rs = Some lyr"
    and k: "k < length rs" and inv: "groupInv h lyr k (hk, cl)"
  shows "\<exists>st'. forEachBodyS a (length h) k (hk, cl) = Some st' \<and> groupInv h lyr (Suc k) st'"
proof -
  from inv obtain ls cs where
    fr: "take (length h) hk = h" and cl1: "length h < cl" and cl2: "cl < length hk"
    and L: "arrayAt hk (length h) = Some ls" and C: "arrayAt hk cl = Some cs"
    and nl: "cl \<notin> set ls" "length h \<notin> set ls"
    and RL: "readAll (lineAt hk) ls = Some (fst (loopState lyr k))"
    and RC: "readAll (lineWordAt hk) cs = Some (snd (loopState lyr k))"
    by (auto simp: groupInv_def)
  have old: "elemAt hk p = elemAt h p" if "p < length h" for p
    using elemAt_take[OF fr that] .
  have n: "length lyr = length rs" using A2 by (rule readAll_length)
  then have kl: "k < length lyr" using k by simp
  have a_lt: "a < length h" using A1 by (rule arrayAt_lt)
  have w_at: "wordAt h (rs ! i) = Some (lyr ! i)" if "i < length rs" for i
    using readAll_nth[OF A2 that] .
  have r_lt: "rs ! i < length h" if "i < length rs" for i
    using wordAt_lt[OF w_at[OF that]] .
  let ?W = "WordObj (lyr ! k) (Some k)"
  let ?c = "length hk"
  let ?h1 = "hk @ [?W]"
  let ?h2 = "?h1[cl := ArrayObj (cs @ [?c])]"
  have s1: "arrayAt hk a = Some rs" using A1 old[OF a_lt] by (simp add: arrayAt_def)
  have s2: "elemAt rs k = Some (rs ! k)" using k by (simp add: elemAt_def)
  have s3: "wordAt hk (rs ! k) = Some (lyr ! k)"
    using w_at[OF k] old[OF r_lt[OF k]] by (simp add: wordAt_def)
  have s4: "alloc ?W hk = (?c, ?h1)" by (simp add: alloc_def)
  have C1: "arrayAt ?h1 cl = Some cs"
    using C cl2 by (simp add: arrayAt_def elemAt_def nth_append)
  have s5: "push cl ?c ?h1 = Some ?h2" using C1 by (simp add: push_def)
  have same2: "elemAt ?h2 p = elemAt hk p" if "p < length hk" "p \<noteq> cl" for p
    using that by (simp add: elemAt_def nth_append)
  have s6: "arrayAt ?h2 a = Some rs"
    using s1 same2[of a] a_lt cl1 cl2 by (simp add: arrayAt_def)
  have w2: "wordAt ?h2 (rs ! i) = Some (lyr ! i)" if "i < length rs" for i
  proof -
    have "rs ! i < length hk" "rs ! i \<noteq> cl" using r_lt[OF that] cl1 cl2 by simp_all
    from same2[OF this] old[OF r_lt[OF that]] w_at[OF that] show ?thesis
      by (simp add: wordAt_def)
  qed
  define nw where "nw = (if k + 1 < length rs then Some (lyr ! (k + 1)) else None)"
  have s7: "(case elemAt rs (k + 1) of None \<Rightarrow> Some None
             | Some nr \<Rightarrow> map_option Some (wordAt ?h2 nr)) = Some nw"
    using w2[of "k + 1"] by (simp add: elemAt_def nw_def)
  have s8: "arrayAt ?h2 cl = Some (cs @ [?c])"
    using cl2 by (simp add: arrayAt_def elemAt_def)
  have lc: "length cs = length (snd (loopState lyr k))"
    using readAll_length[OF RC] by simp
  let ?close = "closeCond lyr k (length cs)"
  define B where "B \<longleftrightarrow> (endsWithPunctuation (w_text (lyr ! k))
        \<or> (case nw of None \<Rightarrow> False | Some x \<Rightarrow> w_start x - w_end (lyr ! k) > 0.8)
        \<or> length (cs @ [?c]) \<ge> 12
        \<or> nw = None)"
  have cond: "B = ?close"
    using k n by (auto simp: closeCond_def B_def nw_def)
  have body0: "forEachBodyS a (length h) k (hk, cl) =
     (if B then do {
                (copy, h3) \<leftarrow> Some (alloc (ArrayObj (cs @ [?c])) ?h2);
                h4 \<leftarrow> push (length h) copy h3;
                (fresh, h5) \<leftarrow> Some (alloc (ArrayObj []) h4);
                Some (h5, fresh)
              }
      else Some (?h2, cl))"
    unfolding forEachBodyS_def B_def
    by (simp only: prod.case s1 s2 s3 s4 s5 s6 s7 s8 Option.bind.bind_lunit Let_def)
  obtain vls vcur where st: "loopState lyr k = (vls, vcur)" by (cases "loopState lyr k")
  note nxt = loopState_step[OF kl st]
  have lc': "length vcur = length cs" using lc st by simp
  have RL': "readAll (lineAt hk) ls = Some vls" and RC': "readAll (lineWordAt hk) cs = Some vcur"
    using RL RC st by simp_all
  have arrD: "lineWordAt hk d = None" if "d \<in> {cl, length h}" for d
    using that C L by (auto dest: arrayAt_not_lineWord)
  have lsD: "set ls \<inter> {cl, length h} = {}" using nl by auto
  have newW: "lineWordAt h' ?c = Some (spread (lyr ! k) k)" if "elemAt h' ?c = Some ?W" for h'
    using that by (simp add: lineWordAt_def)
  show ?thesis
  proof (cases ?close)
    case False
    have body: "forEachBodyS a (length h) k (hk, cl) = Some (?h2, cl)"
      using body0 cond False by (simp only: if_False)
    have same: "elemAt ?h2 p = elemAt hk p" if "p < length hk" "p \<notin> {cl, length h}" for p
      using that same2[of p] by simp
    have 1: "take (length h) ?h2 = h"
    proof -
      have "take (length h) ?h2 = take (length h) ?h1" using cl1 by (simp del: list_update_append)
      also have "\<dots> = take (length h) hk" using cl1 cl2 by simp
      finally show ?thesis using fr by simp
    qed
    have 2: "arrayAt ?h2 (length h) = Some ls"
      using L same2[of "length h"] cl1 cl2 by (simp add: arrayAt_def)
    have 3: "readAll (lineAt ?h2) ls = Some vls"
      by (rule lines_frame[OF same arrD lsD RL'])
    have "readAll (lineWordAt ?h2) cs = Some vcur"
      by (rule readAll_mono[OF _ RC']) (rule lineWordAt_frame[OF same arrD], assumption+)
    moreover have "lineWordAt ?h2 ?c = Some (spread (lyr ! k) k)"
      using cl2 by (intro newW) (simp add: elemAt_def nth_append)
    ultimately have 4: "readAll (lineWordAt ?h2) (cs @ [?c]) = Some (vcur @ [spread (lyr ! k) k])"
      by (rule readAll_snoc)
    have "groupInv h lyr (Suc k) (?h2, cl)"
      unfolding groupInv_def using 1 2 3 4 s8 cl1 cl2 nl nxt False lc'
      by (simp del: list_update_append)
    with body show ?thesis by blast
  next
    case True
    let ?A = "ArrayObj (cs @ [?c])"
    let ?copy = "Suc (length hk)"
    let ?h3 = "?h2 @ [?A]"
    let ?h4 = "?h3[length h := ArrayObj (ls @ [?copy])]"
    let ?fresh = "Suc (Suc (length hk))"
    let ?h5 = "?h4 @ [ArrayObj []]"
    have t1: "alloc ?A ?h2 = (?copy, ?h3)" by (simp add: alloc_def)
    have L3: "arrayAt ?h3 (length h) = Some ls"
      using L cl1 cl2 by (simp add: arrayAt_def elemAt_def nth_append del: list_update_append)
    have t2: "push (length h) ?copy ?h3 = Some ?h4" using L3 by (simp add: push_def)
    have t3: "alloc (ArrayObj []) ?h4 = (?fresh, ?h5)" by (simp add: alloc_def)
    have "B" using cond True by simp
    then have body: "forEachBodyS a (length h) k (hk, cl) = Some (?h5, ?fresh)"
      unfolding body0 by (simp only: if_True t1 t2 t3 Option.bind.bind_lunit prod.case)
    have same: "elemAt ?h5 p = elemAt hk p" if "p < length hk" "p \<notin> {cl, length h}" for p
      using that by (simp add: elemAt_def nth_append del: list_update_append)
    have 1: "take (length h) ?h5 = h"
    proof -
      have "take (length h) ?h5 = take (length h) ?h4" using cl1 cl2 by simp
      also have "\<dots> = take (length h) ?h3" by (simp del: list_update_append)
      also have "\<dots> = take (length h) ?h2" using cl1 cl2 by simp
      also have "\<dots> = take (length h) ?h1" using cl1 by (simp del: list_update_append)
      also have "\<dots> = take (length h) hk" using cl1 cl2 by simp
      finally show ?thesis using fr by simp
    qed
    have 2: "arrayAt ?h5 (length h) = Some (ls @ [?copy])"
      using cl1 cl2 by (simp add: arrayAt_def elemAt_def nth_append del: list_update_append)
    have F2: "arrayAt ?h5 ?fresh = Some []"
      by (simp add: arrayAt_def elemAt_def nth_append del: list_update_append)
    have 3: "readAll (lineAt ?h5) ls = Some vls"
      by (rule lines_frame[OF same arrD lsD RL'])
    have "readAll (lineWordAt ?h5) cs = Some vcur"
      by (rule readAll_mono[OF _ RC']) (rule lineWordAt_frame[OF same arrD], assumption+)
    moreover have "lineWordAt ?h5 ?c = Some (spread (lyr ! k) k)"
      using cl1 cl2 by (intro newW) (simp add: elemAt_def nth_append del: list_update_append)
    ultimately have 4: "readAll (lineWordAt ?h5) (cs @ [?c]) = Some (vcur @ [spread (lyr ! k) k])"
      by (rule readAll_snoc)
    have "arrayAt ?h5 ?copy = Some (cs @ [?c])"
      using cl1 cl2 by (simp add: arrayAt_def elemAt_def nth_append del: list_update_append)
    with 4 have 5: "lineAt ?h5 ?copy = Some (vcur @ [spread (lyr ! k) k])"
      by (simp add: lineAt_def)
    have 6: "readAll (lineAt ?h5) (ls @ [?copy]) = Some (vls @ [vcur @ [spread (lyr ! k) k]])"
      by (rule readAll_snoc[OF 3 5])
    have ltl: "q < length hk" if "q \<in> set ls" for q
    proof -
      from that obtain i where "i < length ls" "ls ! i = q" by (auto simp: in_set_conv_nth)
      with readAll_nth[OF RL', of i] have "lineAt hk q \<noteq> None" by auto
      then show ?thesis by (auto simp: lineAt_def dest: arrayAt_lt split: option.splits)
    qed
    have "?fresh \<notin> set ls" using ltl[of ?fresh] by auto
    then have 7: "?fresh \<notin> set (ls @ [?copy])" "length h \<notin> set (ls @ [?copy])"
      using nl cl1 cl2 by auto
    have "groupInv h lyr (Suc k) (?h5, ?fresh)"
      unfolding groupInv_def using 1 2 F2 6 7 cl1 cl2 nxt True lc'
      by (simp del: list_update_append)
    with body show ?thesis by blast
  qed
qed


subsection \<open>Lines on the store: the call\<close>

lemma loop_store:
  assumes A1: "arrayAt h a = Some rs" and A2: "readAll (wordAt h) rs = Some lyr"
    and s0: "groupInv h lyr 0 s"
  shows "k \<le> length rs \<Longrightarrow>
    \<exists>st. foldOpt (forEachBodyS a (length h)) [0..<k] s = Some st \<and> groupInv h lyr k st"
proof (induction k)
  case 0
  then show ?case using s0 by simp
next
  case (Suc k)
  then obtain hk cl where f: "foldOpt (forEachBodyS a (length h)) [0..<k] s = Some (hk, cl)"
    and inv: "groupInv h lyr k (hk, cl)" by auto
  from Suc.prems have k: "k < length rs" by simp
  from step_store[OF A1 A2 k inv] obtain st' where
    "forEachBodyS a (length h) k (hk, cl) = Some st'" "groupInv h lyr (Suc k) st'" by blast
  then show ?case using f by (simp add: foldOpt_snoc)
qed

lemma call_store:
  assumes rw: "readWords h a = Some lyr"
  shows "\<exists>r h'. groupWordsIntoLinesS (Some a) h = Some (r, h')
        \<and> take (length h) h' = h
        \<and> readLines h' r = Some (groupWordsIntoLines (loaded lyr))"
proof -
  from rw obtain rs where A1: "arrayAt h a = Some rs" and A2: "readAll (wordAt h) rs = Some lyr"
    by (auto simp: readWords_def split: option.splits)
  have n: "length lyr = length rs" using A2 by (rule readAll_length)
  let ?s = "(h @ [ArrayObj [], ArrayObj []], Suc (length h))"
  have s0: "groupInv h lyr 0 ?s"
    by (simp add: groupInv_def arrayAt_def elemAt_def nth_append loopState_0)
  from loop_store[OF A1 A2 s0, of "length rs"] obtain h3 cl where
    f: "foldOpt (forEachBodyS a (length h)) [0..<length rs] ?s = Some (h3, cl)"
    and inv: "groupInv h lyr (length rs) (h3, cl)" by auto
  have call: "groupWordsIntoLinesS (Some a) h = Some (length h, h3)"
    using A1 f by (simp add: groupWordsIntoLinesS_def alloc_def)
  from inv have fr: "take (length h) h3 = h"
    and "readLines h3 (length h) = Some (fst (loopState lyr (length rs)))"
    by (auto simp: groupInv_def readLines_def)
  then have "readLines h3 (length h) = Some (groupWordsIntoLines (loaded lyr))"
    using n by (simp add: groupWordsIntoLines_loaded)
  with call fr show ?thesis by blast
qed

lemma readWords_frame:
  assumes fr: "take (length h) h' = h" and rw: "readWords h a = Some lyr"
  shows "readWords h' a = Some lyr"
proof -
  from rw obtain rs where A1: "arrayAt h a = Some rs" and A2: "readAll (wordAt h) rs = Some lyr"
    by (auto simp: readWords_def split: option.splits)
  have "elemAt h' a = elemAt h a" using elemAt_take[OF fr arrayAt_lt[OF A1]] .
  then have 1: "arrayAt h' a = Some rs" using A1 by (simp add: arrayAt_def)
  have "readAll (wordAt h') rs = Some lyr"
  proof (rule readAll_mono[OF _ A2])
    fix r x assume "wordAt h r = Some x"
    then show "wordAt h' r = Some x"
      using elemAt_take[OF fr wordAt_lt, of r x] by (simp add: wordAt_def)
  qed
  with 1 show ?thesis by (simp add: readWords_def)
qed

text \<open>
  Claim C9.  A call on a store whose lyrics array reads as the word sequence \<open>lyr\<close>
  returns; every object that was in the store before the call is unchanged after it (the
  call only adds objects, and the arrays it updates in place are its own), so the word
  sequence reads the same; the lines it returns hold the value of the function on
  \<open>lyr\<close>; and a second call on the store the first one left returns lines of the same
  value, again without touching what was there.  The two results are different arrays
  with equal contents.
\<close>

theorem grouping_is_pure:
  assumes rw: "readWords h a = Some lyr"
  shows "\<exists>r h'. groupWordsIntoLinesS (Some a) h = Some (r, h')
        \<and> take (length h) h' = h
        \<and> readWords h' a = Some lyr
        \<and> readLines h' r = Some (groupWordsIntoLines (loaded lyr))
        \<and> (\<exists>r2 h2. groupWordsIntoLinesS (Some a) h' = Some (r2, h2)
              \<and> take (length h') h2 = h'
              \<and> readLines h2 r2 = readLines h' r)"
proof -
  from call_store[OF rw] obtain r h' where
    c1: "groupWordsIntoLinesS (Some a) h = Some (r, h')" and fr1: "take (length h) h' = h"
    and l1: "readLines h' r = Some (groupWordsIntoLines (loaded lyr))" by blast
  have rw': "readWords h' a = Some lyr" by (rule readWords_frame[OF fr1 rw])
  from call_store[OF rw'] obtain r2 h2 where
    c2: "groupWordsIntoLinesS (Some a) h' = Some (r2, h2)" and fr2: "take (length h') h2 = h'"
    and l2: "readLines h2 r2 = Some (groupWordsIntoLines (loaded lyr))" by blast
  from c1 fr1 rw' l1 c2 fr2 l2 show ?thesis by simp
qed


theorem grouping_is_pure_witness:
  "readWords exStore 2 = Some scenarioA
   \<and> (\<exists>r h'. groupWordsIntoLinesS (Some 2) exStore = Some (r, h')
        \<and> take (length exStore) h' = exStore
        \<and> readWords h' 2 = Some scenarioA
        \<and> readLines h' r = Some (groupWordsIntoLines (loaded scenarioA))
        \<and> (\<exists>r2 h2. groupWordsIntoLinesS (Some 2) h' = Some (r2, h2)
              \<and> take (length h') h2 = h'
              \<and> readLines h2 r2 = readLines h' r))
   \<and> map_option fst (groupWordsIntoLinesS (Some 2) exStore) = Some 3
   \<and> map_option (length \<circ> snd) (groupWordsIntoLinesS (Some 2) exStore) = Some 9"
proof -
  have r: "readWords exStore 2 = Some scenarioA" by code_simp
  have c: "map_option fst (groupWordsIntoLinesS (Some 2) exStore) = Some 3"
    "map_option (length \<circ> snd) (groupWordsIntoLinesS (Some 2) exStore) = Some 9"
    by code_simp+
  from grouping_is_pure[OF r] r c show ?thesis by blast
qed

text \<open>Without lyrics the call returns a new empty array and changes nothing.\<close>

lemma grouping_without_lyrics:
  "groupWordsIntoLinesS None h = Some (length h, h @ [ArrayObj []])
   \<and> readLines (h @ [ArrayObj []]) (length h) = Some (groupWordsIntoLines None)"
  by (simp add: groupWordsIntoLinesS_def alloc_def readLines_def arrayAt_def elemAt_def
      groupWordsIntoLines_def lyricsOf_def)

end
